theory Spec2Isabelle
  imports Complex_Main
begin

section \<open>Batching: \<open>chunks\<close>\<close>

text \<open>
  Python exceptions that the modelled code can raise: \<open>range\<close> with a step of zero
  raises \<open>ValueError\<close>, an index past the end of a list raises \<open>IndexError\<close>,
  \<open>open(path, 'wb')\<close> raises \<open>OSError\<close>, and the loop that streams the body of a
  response into the file raises when the connection breaks or a chunk cannot be written
  (\<open>StreamError\<close> stands for whichever exception that is).
\<close>

datatype error = ValueError | IndexError | OSError | StreamError

text \<open>
  \<open>range(i, stop, step)\<close> for a positive step, as the list of its values. A step of
  zero is rejected by \<open>chunks\<close> before the range is built; the guard here only makes the
  recursion total.
\<close>

function range_from :: "nat \<Rightarrow> nat \<Rightarrow> nat \<Rightarrow> nat list" where
  "range_from i stop step =
     (if step = 0 \<or> stop \<le> i then [] else i # range_from (i + step) stop step)"
  by pat_completeness auto
termination
  by (relation "measure (\<lambda>(i, stop, step). stop - i)") auto

declare range_from.simps [simp del]

text \<open>The slice \<open>lst[i:j]\<close> for indices \<open>0 \<le> i \<le> j\<close>.\<close>

definition slice :: "'a list \<Rightarrow> nat \<Rightarrow> nat \<Rightarrow> 'a list" where
  "slice lst i j = take (j - i) (drop i lst)"

text \<open>
  \<open>chunks(lst, n)\<close>: the generator, run to the end as \<open>list(chunks(lst, n))\<close> does.
  The only call site passes \<open>n = 10\<close>.
\<close>

definition chunks :: "'a list \<Rightarrow> nat \<Rightarrow> error + 'a list list" where
  "chunks lst n =
     (if n = 0 then Inl ValueError
      else Inr (map (\<lambda>i. slice lst i (i + n)) (range_from 0 (length lst) n)))"

section \<open>The retry fetcher: \<open>fetch_url\<close>\<close>

text \<open>
  How the loop \<open>for chunk in r: f.write(chunk)\<close> over a response ends: the body is
  complete, or iterating the response or writing a chunk raises. The response is requested
  with \<open>stream=True\<close>, so its body arrives while the loop runs.
\<close>

datatype body_end = EndOfBody | BodyRaises

text \<open>
  What one call \<open>requests.get(uri, stream=True, timeout=timeout)\<close> can do: raise an
  exception (a connection error or a timeout, caught by \<open>except Exception\<close>), or return
  a response object with a \<open>status_code\<close>, the chunks that the loop over it writes
  before it ends, and the way that loop ends.
\<close>

datatype response = Raised | Response nat "string list" body_end

text \<open>An entry is the pair \<open>[uri, path]\<close> that a worker receives.\<close>

type_synonym entry = "string \<times> string"

text \<open>The downloaded files: the content stored under each path.\<close>

type_synonym files = "string \<rightharpoonup> string"

text \<open>
  Everything the program takes from outside. \<open>str\<close> is Python's \<open>str\<close> on the values
  of the input table. \<open>urlencode ra dec\<close> is the query string
  \<open>urllib.parse.urlencode(dict(ra=ra, dec=dec, width=256, height=256, scale=60/256))\<close>
  built in \<open>get_SDSS_url\<close>, or \<open>None\<close> when building it raises. \<open>randint e\<close> is the
  value that \<open>random.randint(1, 101)\<close> returns in the worker of entry \<open>e\<close>.
  \<open>requests_get e k t\<close> is the outcome of the GET that the worker of entry \<open>e\<close> issues
  with timeout \<open>t\<close> after \<open>k\<close> earlier attempts. \<open>can_open path\<close> says whether
  \<open>open(path, 'wb')\<close> succeeds. Timeouts are floats in the source and rationals here;
  doubling a float is exact.
\<close>

record 'v world =
  str :: "'v \<Rightarrow> string"
  urlencode :: "'v \<Rightarrow> 'v \<Rightarrow> string option"
  randint :: "entry \<Rightarrow> int"
  requests_get :: "entry \<Rightarrow> nat \<Rightarrow> rat \<Rightarrow> response"
  can_open :: "string \<Rightarrow> bool"

text \<open>The two \<open>llog.warning\<close> messages, with the values they interpolate.\<close>

datatype warning =
  TimeoutWarning nat nat rat
  | StatusWarning nat nat nat

text \<open>
  What a call of \<open>fetch_url\<close> does: how it ends (\<open>Inr (Some path)\<close> when it returns
  the path, \<open>Inr None\<close> when it returns Python's \<open>None\<close>, \<open>Inl e\<close> when the
  exception \<open>e\<close> leaves it), the files afterwards, the time slept before the first
  attempt, the \<open>count\<close> and \<open>timeout\<close> of every GET it issued, in order, and the
  warnings logged.
\<close>

record outcome =
  result :: "error + string option"
  files :: files
  slept :: rat
  attempts :: "(nat \<times> rat) list"
  warnings :: "warning list"

definition tries :: nat where
  "tries = 5"

text \<open>
  \<open>with open(path, 'wb') as f: for chunk in r: f.write(chunk)\<close>: the file is created
  or truncated, the chunks are appended in order, and the file is closed when the block is
  left, whether the loop ends or raises; \<open>body\<close> holds the chunks written.
\<close>

definition write_chunks :: "files \<Rightarrow> string \<Rightarrow> string list \<Rightarrow> files" where
  "write_chunks fs path body = fs(path \<mapsto> foldl (@) [] body)"

text \<open>Adds one attempt and its warning in front of what the rest of the loop does.\<close>

fun note_attempt ::
  "nat \<times> rat \<Rightarrow> warning \<Rightarrow>
   (error + string option) \<times> files \<times> (nat \<times> rat) list \<times> warning list \<Rightarrow>
   (error + string option) \<times> files \<times> (nat \<times> rat) list \<times> warning list" where
  "note_attempt a wn (r, fs, as, ws) = (r, fs, a # as, wn # ws)"

text \<open>
  The \<open>while not downloaded and count < tries\<close> loop, entered with the current
  \<open>count\<close> and \<open>timeout\<close>; \<open>opens\<close> says whether \<open>open(path, 'wb')\<close> succeeds.
  \<open>downloaded\<close> is never set to true, so the loop is left by \<open>return path\<close>, when
  \<open>count\<close> reaches \<open>tries\<close>, or by an exception: only \<open>requests.get\<close> is inside the
  \<open>try\<close>, so an exception raised by \<open>open\<close> or while the body is written leaves
  \<open>fetch_url\<close>.
\<close>

function attempt_loop ::
  "(nat \<Rightarrow> rat \<Rightarrow> response) \<Rightarrow> bool \<Rightarrow> string \<Rightarrow> files \<Rightarrow> nat \<Rightarrow> rat \<Rightarrow>
   (error + string option) \<times> files \<times> (nat \<times> rat) list \<times> warning list" where
  "attempt_loop get opens path fs count timeout =
     (if count < tries then
        (case get count timeout of
           Raised \<Rightarrow>
             note_attempt (count, timeout) (TimeoutWarning (count + 1) tries (timeout * 2))
               (attempt_loop get opens path fs (count + 1) (timeout * 2))
         | Response status_code body ending \<Rightarrow>
             if status_code = 200
             then (if \<not> opens then (Inl OSError, fs, [(count, timeout)], [])
                   else case ending of
                          EndOfBody \<Rightarrow>
                            (Inr (Some path), write_chunks fs path body, [(count, timeout)], [])
                        | BodyRaises \<Rightarrow>
                            (Inl StreamError, write_chunks fs path body, [(count, timeout)], []))
             else note_attempt (count, timeout) (StatusWarning status_code (count + 1) tries)
               (attempt_loop get opens path fs (count + 1) timeout))
      else (Inr None, fs, [], []))"
  by pat_completeness auto
termination
  by (relation "measure (\<lambda>(get, opens, path, fs, count, timeout). tries - count)") auto

declare attempt_loop.simps [simp del]

definition randSleep :: "int \<Rightarrow> rat" where
  "randSleep r = of_int r / 20"

text \<open>
  \<open>fetch_url(entry)\<close>, with the global \<open>gtimeout\<close> as a parameter.
\<close>

definition fetch_url :: "rat \<Rightarrow> 'v world \<Rightarrow> files \<Rightarrow> entry \<Rightarrow> outcome" where
  "fetch_url gtimeout w fs entry =
     (case entry of (uri, path) \<Rightarrow>
        (case attempt_loop (requests_get w entry) (can_open w path) path fs 0 gtimeout of
           (r, fs', as, ws) \<Rightarrow>
             \<lparr>result = r, files = fs', slept = randSleep (randint w entry),
              attempts = as, warnings = ws\<rparr>))"

text \<open>The values \<open>random.randint(a, b)\<close> can return: both ends are included.\<close>

definition randint_range :: "int \<Rightarrow> int \<Rightarrow> int set" where
  "randint_range a b = {a..b}"


section \<open>The batch downloader: \<open>multiobject_download\<close>\<close>

text \<open>\<open>os.path.join(a, b)\<close> on POSIX.\<close>

definition os_path_join :: "string \<Rightarrow> string \<Rightarrow> string" where
  "os_path_join a b =
     (if b \<noteq> [] \<and> hd b = CHR ''/'' then b
      else if a = [] \<or> last a = CHR ''/'' then a @ b
      else a @ ''/'' @ b)"

text \<open>
  The loop that fills \<open>thisArray\<close>: the \<open>i\<close>-th url is paired with
  \<open>filenames[i]\<close>, which raises \<open>IndexError\<close> when there are fewer filenames than
  urls. \<open>downloadDirectory\<close> is a string at the only call site, so the
  \<open>isinstance\<close> test holds.
\<close>

definition pair_entries :: "string list \<Rightarrow> string \<Rightarrow> string list \<Rightarrow> error + entry list" where
  "pair_entries urlList downloadDirectory filenames =
     (if length filenames < length urlList then Inl IndexError
      else Inr (map (\<lambda>(i, url). (url, os_path_join downloadDirectory (filenames ! i)))
                 (enumerate 0 urlList)))"

text \<open>
  \<open>executor.map(fetch_url, thisArray)\<close>: one call of \<open>fetch_url\<close> per entry, the results
  in the order of the entries. The workers run concurrently; each writes only the file of
  its own entry, and the model applies the writes in the order of the entries.
\<close>

fun executor_map :: "rat \<Rightarrow> 'v world \<Rightarrow> files \<Rightarrow> entry list \<Rightarrow> outcome list \<times> files" where
  "executor_map gtimeout w fs [] = ([], fs)"
| "executor_map gtimeout w fs (e # es) =
     (let out = fetch_url gtimeout w fs e;
          (outs, fs') = executor_map gtimeout w (files out) es
      in (out # outs, fs'))"

text \<open>
  One printed progress line: the count, the total and the percentage
  \<open>float(len(returnPaths)) / float(totalCount) * 100.\<close> (a float in the source, the exact
  quotient here).
\<close>

record report =
  shown :: nat
  total :: nat
  percent :: rat

text \<open>
  The loop \<open>for path in results\<close>: every value that a worker returned, \<open>None\<close>
  included, is appended to \<open>returnPaths\<close>, and one line is printed for it. The
  iterator of \<open>executor.map\<close> re-raises the exception of a worker when the loop reaches
  its result, which ends the loop; the third component is that exception, if any.
\<close>

fun collect ::
  "nat \<Rightarrow> string option list \<Rightarrow> (error + string option) list \<Rightarrow>
   string option list \<times> report list \<times> error option" where
  "collect totalCount returnPaths [] = (returnPaths, [], None)"
| "collect totalCount returnPaths (Inl e # results) = (returnPaths, [], Some e)"
| "collect totalCount returnPaths (Inr path # results) =
     (let returnPaths' = returnPaths @ [path];
          percent = of_nat (length returnPaths') / of_nat totalCount * 100;
          (rp, reps, err) = collect totalCount returnPaths' results
      in (rp, \<lparr>shown = length returnPaths', total = totalCount, percent = percent\<rparr> # reps,
          err))"

text \<open>
  What a call of \<open>multiobject_download\<close> does: how it ends (\<open>Inr localPaths\<close> when it
  returns, \<open>Inl e\<close> when the exception \<open>e\<close> leaves it), the files afterwards, the
  progress lines printed, \<open>thisArray\<close> as handed to the executor, and what each worker
  did.
\<close>

record download =
  returned :: "error + string list"
  files_after :: files
  reports :: "report list"
  thisArray :: "entry list"
  fetched :: "outcome list"

text \<open>
  \<open>multiobject_download(urlList, downloadDirectory, log, filenames, timeout,
  concurrentDownloads)\<close>. \<open>concurrentDownloads\<close> is not used by the body. Leaving the
  \<open>with\<close> block of the executor waits for every worker, so all workers have finished
  before the loop over the results starts.
\<close>

definition multiobject_download ::
  "'v world \<Rightarrow> files \<Rightarrow> string list \<Rightarrow> string \<Rightarrow> string list \<Rightarrow> rat \<Rightarrow> nat \<Rightarrow> download" where
  "multiobject_download w fs urlList downloadDirectory filenames timeout concurrentDownloads =
     (let gtimeout = timeout;
          totalCount = length urlList
      in case pair_entries urlList downloadDirectory filenames of
           Inl e \<Rightarrow>
             \<lparr>returned = Inl e, files_after = fs, reports = [], thisArray = [], fetched = []\<rparr>
         | Inr arr \<Rightarrow>
             (let (outs, fs') = executor_map gtimeout w fs arr;
                  (returnPaths, reps, err) = collect totalCount [] (map result outs)
              in \<lparr>returned =
                     (case err of
                        Some e \<Rightarrow> Inl e
                      | None \<Rightarrow>
                          Inr (map snd (filter (\<lambda>e. Some (snd e) \<in> set returnPaths) arr))),
                   files_after = fs', reports = reps, thisArray = arr, fetched = outs\<rparr>))"

section \<open>The main program\<close>

definition cutoutbaseurl :: string where
  "cutoutbaseurl = ''http://skyservice.pha.jhu.edu/DR12/ImgCutout/getjpeg.aspx''"

text \<open>\<open>get_SDSS_url(ra, dec)\<close>; \<open>None\<close> stands for a raised exception.\<close>

definition get_SDSS_url :: "'v world \<Rightarrow> 'v \<Rightarrow> 'v \<Rightarrow> string option" where
  "get_SDSS_url w ra dec =
     (case urlencode w ra dec of
        None \<Rightarrow> None
      | Some query_string \<Rightarrow> Some (cutoutbaseurl @ ''?'' @ query_string))"

text \<open>\<open>os.path.basename(x)\<close> on POSIX: what follows the last slash.\<close>

definition basename :: "string \<Rightarrow> string" where
  "basename x = rev (takeWhile (\<lambda>c. c \<noteq> CHR ''/'') (rev x))"

text \<open>\<open>s.rstrip(chars)\<close>: drops from the end every character that occurs in \<open>chars\<close>.\<close>

definition rstrip :: "string \<Rightarrow> string \<Rightarrow> string" where
  "rstrip chars s = rev (dropWhile (\<lambda>c. c \<in> set chars) (rev s))"

text \<open>
  Lines 114 to 124. The argument is the column \<open>paths\<close> that \<open>pd.read_csv\<close> delivers
  for the ledger: \<open>None\<close> when reading raises (the bare \<open>except\<close> then leaves
  \<open>retrieved_ids\<close> empty), otherwise one cell per row, a string or a value that is not
  a string (\<open>None\<close>).
\<close>

definition load_retrieved_ids :: "string option list option \<Rightarrow> string list" where
  "load_retrieved_ids downloaded =
     (case downloaded of
        None \<Rightarrow> []
      | Some paths \<Rightarrow> map (\<lambda>x. rstrip ''.jpeg'' (basename x)) (List.map_filter id paths))"

text \<open>The decimal digits of the counter, as the f-string prints them.\<close>

definition digit_char :: "nat \<Rightarrow> char" where
  "digit_char d = ''0123456789'' ! d"

fun str_nat :: "nat \<Rightarrow> string" where
  "str_nat n = (if n < 10 then [digit_char n] else str_nat (n div 10) @ [digit_char (n mod 10)])"

declare str_nat.simps [simp del]

text \<open>The filename \<open>f"{counter}.jpeg"\<close>.\<close>

definition jpeg_name :: "nat \<Rightarrow> string" where
  "jpeg_name k = str_nat k @ ''.jpeg''"

text \<open>
  The variables that the loop over the rows of a batch updates: the counter, \<open>objids\<close>,
  \<open>allUrls\<close>, and the rows appended to \<open>urlnotfound.csv\<close>.
\<close>

record rows_state =
  counter :: nat
  objids :: "string list"
  allUrls :: "string list"
  notfound :: "string list list"

text \<open>The body of \<open>for row in batch\<close> (lines 137 to 151).\<close>

definition row_step :: "'v world \<Rightarrow> string list \<Rightarrow> rows_state \<Rightarrow> 'v \<times> 'v \<times> 'v \<Rightarrow> rows_state" where
  "row_step w retrieved_ids st row =
     (case row of (RA, DEC, oid) \<Rightarrow>
        if str w oid \<in> set retrieved_ids then st
        else
          (let st1 = st\<lparr>objids := objids st @ [jpeg_name (counter st)],
                         counter := counter st + 1\<rparr>
           in case get_SDSS_url w RA DEC of
                None \<Rightarrow>
                  st1\<lparr>notfound := notfound st1 @ [[str w RA @ '','' @ str w DEC @ '' not found'']]\<rparr>
              | Some url \<Rightarrow> st1\<lparr>allUrls := allUrls st1 @ [url]\<rparr>))"

text \<open>
  The state of a run: the counter, the rows appended to \<open>urlnotfound.csv\<close> and to
  \<open>downloaded.csv\<close>, the downloaded files, for every batch started so far its
  \<open>objids\<close>, its \<open>allUrls\<close> and what \<open>multiobject_download\<close> did, and the
  exception that has ended the run, if any. The two csv files live in the output directory
  that the program has created; appending to them is taken to succeed.
\<close>

record run_state =
  run_counter :: nat
  run_notfound :: "string list list"
  run_ledger :: "string list list"
  run_files :: files
  run_batches :: "(string list \<times> string list \<times> download) list"
  run_error :: "error option"

text \<open>
  The body of \<open>for batch in batches\<close> (lines 132 to 168) for one batch. An exception
  that leaves \<open>multiobject_download\<close> is not caught: the ledger is then not appended to.
\<close>

definition batch_step ::
  "'v world \<Rightarrow> string \<Rightarrow> string list \<Rightarrow> run_state \<Rightarrow> ('v \<times> 'v \<times> 'v) list \<Rightarrow> run_state" where
  "batch_step w downdir retrieved_ids st batch =
     (let concurrentDownloads = length batch;
          rows = foldl (row_step w retrieved_ids)
                   \<lparr>counter = run_counter st, objids = [], allUrls = [],
                    notfound = run_notfound st\<rparr> batch;
          d = multiobject_download w (run_files st) (allUrls rows) downdir (objids rows) 180
                concurrentDownloads;
          st1 = st\<lparr>run_counter := counter rows, run_notfound := notfound rows,
                    run_files := files_after d,
                    run_batches := run_batches st @ [(objids rows, allUrls rows, d)]\<rparr>
      in case returned d of
           Inl e \<Rightarrow> st1\<lparr>run_error := Some e\<rparr>
         | Inr localUrls \<Rightarrow>
             st1\<lparr>run_ledger := run_ledger st @ map (\<lambda>item. [item]) localUrls\<rparr>)"

text \<open>The loop \<open>for batch in batches\<close>; an exception ends the run.\<close>

fun main_loop ::
  "'v world \<Rightarrow> string \<Rightarrow> string list \<Rightarrow> run_state \<Rightarrow> ('v \<times> 'v \<times> 'v) list list \<Rightarrow> run_state" where
  "main_loop w downdir retrieved_ids st [] = st"
| "main_loop w downdir retrieved_ids st (batch # batches) =
     (let st' = batch_step w downdir retrieved_ids st batch
      in if run_error st' \<noteq> None then st' else main_loop w downdir retrieved_ids st' batches)"

text \<open>The state in which \<open>main\<close> enters the loop over the batches.\<close>

definition initial_state :: "files \<Rightarrow> run_state" where
  "initial_state fs =
     \<lparr>run_counter = 1, run_notfound = [], run_ledger = [], run_files = fs, run_batches = [],
      run_error = None\<rparr>"

text \<open>
  The program from line 94 on: \<open>out\<close> is the output directory \<open>args.o\<close>,
  \<open>downloaded\<close> the column read from the ledger, \<open>data\<close> the rows of the three chosen
  columns, \<open>fs\<close> the files present at the start. The result is the state in which the
  program ends.
\<close>

definition main ::
  "'v world \<Rightarrow> string \<Rightarrow> string option list option \<Rightarrow> ('v \<times> 'v \<times> 'v) list \<Rightarrow> files \<Rightarrow>
   run_state" where
  "main w out downloaded data fs =
     (let downdir = os_path_join out ''panstamps'';
          retrieved_ids = load_retrieved_ids downloaded
      in case chunks data 10 of
           Inl e \<Rightarrow> (initial_state fs)\<lparr>run_error := Some e\<rparr>
         | Inr batches \<Rightarrow> main_loop w downdir retrieved_ids (initial_state fs) batches)"

text \<open>
  The column \<open>paths\<close> that \<open>pd.read_csv(download_list, names=['paths'], dtype=str)\<close>
  delivers for a ledger holding the given rows, each of one path: reading a missing or
  empty file raises, and a path written by the program is read back as the same string.
\<close>

definition ledger_column :: "string list list \<Rightarrow> string option list option" where
  "ledger_column rows = (if rows = [] then None else Some (map (\<lambda>row. Some (concat row)) rows))"

section \<open>Notions used to state the properties\<close>

text \<open>
  The rows that the loop does not skip, the url built for a row (\<open>None\<close> when building
  it raises), and the row written to \<open>urlnotfound.csv\<close> for a row.
\<close>

definition pending :: "'v world \<Rightarrow> string list \<Rightarrow> ('v \<times> 'v \<times> 'v) list \<Rightarrow> ('v \<times> 'v \<times> 'v) list" where
  "pending w retrieved_ids rows = filter (\<lambda>(RA, DEC, oid). str w oid \<notin> set retrieved_ids) rows"

definition row_url :: "'v world \<Rightarrow> 'v \<times> 'v \<times> 'v \<Rightarrow> string option" where
  "row_url w row = (case row of (RA, DEC, oid) \<Rightarrow> get_SDSS_url w RA DEC)"

definition notfound_row :: "'v world \<Rightarrow> 'v \<times> 'v \<times> 'v \<Rightarrow> string list" where
  "notfound_row w row = (case row of (RA, DEC, oid) \<Rightarrow> [str w RA @ '','' @ str w DEC @ '' not found''])"

text \<open>Whether a worker returned a path.\<close>

definition got_path :: "outcome \<Rightarrow> bool" where
  "got_path out = (case result out of Inr (Some path) \<Rightarrow> True | _ \<Rightarrow> False)"

text \<open>
  Over a whole run: the filenames assigned (the \<open>objids\<close> of all batches), the entries
  handed to the executor, and what their workers did, each in the order of the run.
\<close>

definition assigned_filenames :: "run_state \<Rightarrow> string list" where
  "assigned_filenames st = concat (map (\<lambda>(objids, urls, d). objids) (run_batches st))"

definition queued :: "run_state \<Rightarrow> entry list" where
  "queued st = concat (map (\<lambda>(objids, urls, d). thisArray d) (run_batches st))"

definition outcomes :: "run_state \<Rightarrow> outcome list" where
  "outcomes st = concat (map (\<lambda>(objids, urls, d). fetched d) (run_batches st))"

text \<open>
  What the examples below read off the state in which a run ends, and, for every batch of a
  run, the percentages printed and the number of items that were downloaded.
\<close>

definition run_summary :: "run_state \<Rightarrow>
  nat \<times> string list list \<times> string list list \<times> string list \<times> entry list \<times>
  (error + string option) list \<times> error option \<times> nat" where
  "run_summary st = (run_counter st, run_notfound st, run_ledger st, assigned_filenames st,
     queued st, map result (outcomes st), run_error st, length (run_batches st))"

definition reported_percents :: "run_state \<Rightarrow> rat list list" where
  "reported_percents st = map (\<lambda>(objids, urls, d). map percent (reports d)) (run_batches st)"

definition downloaded_counts :: "run_state \<Rightarrow> nat list" where
  "downloaded_counts st =
     map (\<lambda>(objids, urls, d). length (filter got_path (fetched d))) (run_batches st)"

text \<open>Reading a decimal string back, the inverse of \<open>str_nat\<close>.\<close>

definition digit_val :: "char \<Rightarrow> nat" where
  "digit_val c = length (takeWhile (\<lambda>d. d \<noteq> c) ''0123456789'')"

definition nat_of_str :: "string \<Rightarrow> nat" where
  "nat_of_str s = foldl (\<lambda>a c. 10 * a + digit_val c) 0 s"

section \<open>The state of the loop after an attempt\<close>

text \<open>
  \<open>after_attempt get opens path fs c x i\<close> says what a run \<open>x\<close> of the attempt loop,
  entered with the count \<open>c\<close>, has done once its attempt number \<open>i\<close> has been answered:
  the attempt was made with the count \<open>c + i\<close>; after an exception of the GET the next
  attempt has the next count and twice the timeout, after a status other than 200 the next
  count and the same timeout, and when no attempt is left the run returns \<open>None\<close> with
  the files untouched; after a status 200 the run ends: when the file cannot be opened the
  exception leaves the run with the files untouched, otherwise the file holds the chunks
  written, and the run returns the path if the body was complete and is left by the
  exception if not.
\<close>

definition after_attempt ::
  "(nat \<Rightarrow> rat \<Rightarrow> response) \<Rightarrow> bool \<Rightarrow> string \<Rightarrow> files \<Rightarrow> nat \<Rightarrow>
   (error + string option) \<times> files \<times> (nat \<times> rat) list \<times> warning list \<Rightarrow> nat \<Rightarrow> bool" where
  "after_attempt get opens path fs c x i \<longleftrightarrow>
     fst (fst (snd (snd x)) ! i) = c + i \<and>
     (case get (c + i) (snd (fst (snd (snd x)) ! i)) of
        Raised \<Rightarrow>
          (if c + i + 1 < tries
           then Suc i < length (fst (snd (snd x))) \<and>
                fst (snd (snd x)) ! Suc i = (c + i + 1, 2 * snd (fst (snd (snd x)) ! i))
           else Suc i = length (fst (snd (snd x))) \<and> fst x = Inr None \<and> fst (snd x) = fs)
      | Response s body ending \<Rightarrow>
          (if s = 200
           then Suc i = length (fst (snd (snd x))) \<and>
                (if \<not> opens then fst x = Inl OSError \<and> fst (snd x) = fs
                 else fst (snd x) = write_chunks fs path body \<and>
                      fst x = (case ending of EndOfBody \<Rightarrow> Inr (Some path)
                               | BodyRaises \<Rightarrow> Inl StreamError))
           else if c + i + 1 < tries
           then Suc i < length (fst (snd (snd x))) \<and>
                fst (snd (snd x)) ! Suc i = (c + i + 1, snd (fst (snd (snd x)) ! i))
           else Suc i = length (fst (snd (snd x))) \<and> fst x = Inr None \<and> fst (snd x) = fs))"

section \<open>Example inputs\<close>

text \<open>
  A server that raises on the first two attempts, then answers 503, then 200 with a body of
  two chunks; a server that always answers 404; and a world built from such a server, where
  every draw of \<open>random.randint\<close> is \<open>r\<close>, the table holds strings, building the
  url raises for an empty \<open>ra\<close>, and every file can be opened.
\<close>

definition flaky_get :: "entry \<Rightarrow> nat \<Rightarrow> rat \<Rightarrow> response" where
  "flaky_get e k t =
     (if k < 2 then Raised else if k < 3 then Response 503 [] EndOfBody
      else Response 200 [''ab'', ''cd''] EndOfBody)"

definition refusing_get :: "entry \<Rightarrow> nat \<Rightarrow> rat \<Rightarrow> response" where
  "refusing_get e k t = Response 404 [] EndOfBody"

definition example_world :: "(entry \<Rightarrow> nat \<Rightarrow> rat \<Rightarrow> response) \<Rightarrow> int \<Rightarrow> string world" where
  "example_world get r =
     \<lparr>str = (\<lambda>v. v),
      urlencode = (\<lambda>ra dec. if ra = [] then None else Some (''ra='' @ ra @ ''&dec='' @ dec)),
      randint = (\<lambda>e. r), requests_get = get, can_open = (\<lambda>path. True)\<rparr>"

text \<open>
  A server that answers 404 for the url of the coordinates (3, 3) and 200 otherwise, and an
  input table of four rows; building the url raises for the second row.
\<close>

definition picky_get :: "entry \<Rightarrow> nat \<Rightarrow> rat \<Rightarrow> response" where
  "picky_get e k t =
     (if fst e = cutoutbaseurl @ ''?ra=3&dec=3'' then Response 404 [] EndOfBody
      else Response 200 [''img''] EndOfBody)"

definition four_rows :: "(string \<times> string \<times> string) list" where
  "four_rows = [(''1'', ''1'', ''a''), ('''', ''2'', ''b''), (''3'', ''3'', ''c''), (''4'', ''4'', ''d'')]"

text \<open>
  A server that answers 200 to every url and whose body breaks off after one chunk for the
  url of the coordinates (1, 1); a server that answers 200 with a complete body to every
  url; a table of one row, and a table of eleven rows with the ids \<open>a\<close> to \<open>k\<close>.
\<close>

definition breaking_get :: "entry \<Rightarrow> nat \<Rightarrow> rat \<Rightarrow> response" where
  "breaking_get e k t =
     (if fst e = cutoutbaseurl @ ''?ra=1&dec=1'' then Response 200 [''im''] BodyRaises
      else Response 200 [''img''] EndOfBody)"

definition serving_get :: "entry \<Rightarrow> nat \<Rightarrow> rat \<Rightarrow> response" where
  "serving_get e k t = Response 200 [''img''] EndOfBody"

definition one_row :: "(string \<times> string \<times> string) list" where
  "one_row = [(''1'', ''1'', ''a'')]"

definition eleven_rows :: "(string \<times> string \<times> string) list" where
  "eleven_rows =
     [(''1'', ''1'', ''a''), (''2'', ''2'', ''b''), (''3'', ''3'', ''c''), (''4'', ''4'', ''d''),
      (''5'', ''5'', ''e''), (''6'', ''6'', ''f''), (''7'', ''7'', ''g''), (''8'', ''8'', ''h''),
      (''9'', ''9'', ''i''), (''10'', ''10'', ''j''), (''11'', ''11'', ''k'')]"

section \<open>Properties of \<open>chunks\<close>\<close>

lemma range_from_done [simp]: "stop \<le> i \<Longrightarrow> range_from i stop step = []"
  by (simp add: range_from.simps [of i])

lemma range_from_more:
  "0 < step \<Longrightarrow> i < stop \<Longrightarrow> range_from i stop step = i # range_from (i + step) stop step"
  by (simp add: range_from.simps [of i])

lemma concat_slices:
  "0 < n \<Longrightarrow> concat (map (\<lambda>i. slice lst i (i + n)) (range_from i (length lst) n)) = drop i lst"
proof (induction i "length lst" n rule: range_from.induct)
  case (1 i step)
  show ?case
  proof (cases "length lst \<le> i")
    case True
    then show ?thesis by simp
  next
    case False
    with "1.prems" have "concat (map (\<lambda>i. slice lst i (i + step))
        (range_from (i + step) (length lst) step)) = drop (i + step) lst"
      using "1.hyps" by simp
    moreover have "drop (i + step) lst = drop step (drop i lst)"
      by (simp add: add.commute)
    moreover have "slice lst i (i + step) = take step (drop i lst)"
      by (simp add: slice_def)
    ultimately show ?thesis
      using False "1.prems" by (simp add: range_from_more del: drop_drop)
  qed
qed






section \<open>Properties of \<open>fetch_url\<close>\<close>

lemma attempt_loop_exhausted:
  "tries \<le> c \<Longrightarrow> attempt_loop get opens path fs c t = (Inr None, fs, [], [])"
  by (simp add: attempt_loop.simps [of get opens path fs c t])

lemma attempt_loop_raised:
  "c < tries \<Longrightarrow> get c t = Raised \<Longrightarrow>
   attempt_loop get opens path fs c t =
     note_attempt (c, t) (TimeoutWarning (c + 1) tries (t * 2))
       (attempt_loop get opens path fs (c + 1) (t * 2))"
  by (simp add: attempt_loop.simps [of get opens path fs c t])

lemma attempt_loop_status:
  "c < tries \<Longrightarrow> get c t = Response s body ending \<Longrightarrow> s \<noteq> 200 \<Longrightarrow>
   attempt_loop get opens path fs c t =
     note_attempt (c, t) (StatusWarning s (c + 1) tries)
       (attempt_loop get opens path fs (c + 1) t)"
  by (simp add: attempt_loop.simps [of get opens path fs c t])

lemma attempt_loop_ok:
  "c < tries \<Longrightarrow> get c t = Response 200 body ending \<Longrightarrow>
   attempt_loop get opens path fs c t =
     (if \<not> opens then (Inl OSError, fs, [(c, t)], [])
      else (case ending of EndOfBody \<Rightarrow> Inr (Some path) | BodyRaises \<Rightarrow> Inl StreamError,
            write_chunks fs path body, [(c, t)], []))"
  by (simp add: attempt_loop.simps [of get opens path fs c t] split: body_end.splits)

lemma retry_induct [case_names exhausted raised status ok]:
  assumes "\<And>c t. tries \<le> c \<Longrightarrow> P c t"
    and "\<And>c t. c < tries \<Longrightarrow> get c t = Raised \<Longrightarrow> P (c + 1) (t * 2) \<Longrightarrow> P c t"
    and "\<And>c t s body ending. c < tries \<Longrightarrow> get c t = Response s body ending \<Longrightarrow> s \<noteq> 200 \<Longrightarrow>
           P (c + 1) t \<Longrightarrow> P c t"
    and "\<And>c t body ending. c < tries \<Longrightarrow> get c t = Response 200 body ending \<Longrightarrow> P c t"
  shows "P c (t::rat)"
proof (induction "tries - c" arbitrary: c t)
  case 0
  then show ?case using assms(1) by simp
next
  case (Suc n c t)
  then have lt: "c < tries" and n: "n = tries - (c + 1)" by simp_all
  show ?case
  proof (cases "get c t")
    case Raised
    with lt Suc.hyps(1) [OF n] show ?thesis using assms(2) by blast
  next
    case (Response s body ending)
    with lt Suc.hyps(1) [OF n] show ?thesis using assms(3,4) by (cases "s = 200") blast+
  qed
qed

lemma note_attempt_proj [simp]:
  "fst (note_attempt a wn x) = fst x"
  "fst (snd (note_attempt a wn x)) = fst (snd x)"
  "fst (snd (snd (note_attempt a wn x))) = a # fst (snd (snd x))"
  "snd (snd (snd (note_attempt a wn x))) = wn # snd (snd (snd x))"
  by (cases x; simp)+


lemma loop_attempts_length:
  "length (fst (snd (snd (attempt_loop get opens path fs c t)))) \<le> tries - c"
  by (induction c t rule: retry_induct [of _ get])
     (auto simp add: attempt_loop_exhausted attempt_loop_raised attempt_loop_status
        attempt_loop_ok)

lemma loop_attempts_failed:
  "fst (attempt_loop get opens path fs c t) = Inr None \<Longrightarrow>
   length (fst (snd (snd (attempt_loop get opens path fs c t)))) = tries - c"
  by (induction c t rule: retry_induct [of _ get])
     (auto simp add: attempt_loop_exhausted attempt_loop_raised attempt_loop_status
        attempt_loop_ok split: if_splits body_end.splits)

lemma loop_attempts_head:
  "c < tries \<Longrightarrow> hd (fst (snd (snd (attempt_loop get opens path fs c t)))) = (c, t) \<and>
     fst (snd (snd (attempt_loop get opens path fs c t))) \<noteq> []"
  by (induction c t rule: retry_induct [of _ get])
     (simp_all add: attempt_loop_exhausted attempt_loop_raised attempt_loop_status attempt_loop_ok
        split: prod.splits)


lemmas loop_steps = attempt_loop_exhausted attempt_loop_raised attempt_loop_status attempt_loop_ok

lemma loop_attempts_nth0:
  "fst (snd (snd (attempt_loop get opens path fs c t))) \<noteq> [] \<Longrightarrow>
   fst (snd (snd (attempt_loop get opens path fs c t))) ! 0 = (c, t)"
  by (induction c t rule: retry_induct [of _ get]) (simp_all add: loop_steps)


lemma loop_attempts_nonempty:
  "c < tries \<Longrightarrow> fst (snd (snd (attempt_loop get opens path fs c t))) \<noteq> []"
  using loop_attempts_head [of c get opens path fs t] by simp

lemma after_attempt_Suc:
  "fst (snd (snd x)) = a # fst (snd (snd y)) \<Longrightarrow> fst x = fst y \<Longrightarrow> fst (snd x) = fst (snd y) \<Longrightarrow>
   after_attempt get opens path fs (c + 1) y j \<Longrightarrow> after_attempt get opens path fs c x (Suc j)"
  by (simp add: after_attempt_def split: response.splits)

lemma loop_after_attempt:
  "\<forall>i < length (fst (snd (snd (attempt_loop get opens path fs c t)))).
     after_attempt get opens path fs c (attempt_loop get opens path fs c t) i"
proof (induction c t rule: retry_induct [of _ get])
  case (exhausted c t)
  then show ?case by (simp add: loop_steps)
next
  case (raised c t)
  let ?y = "attempt_loop get opens path fs (c + 1) (t * 2)"
  let ?x = "attempt_loop get opens path fs c t"
  have x: "?x = note_attempt (c, t) (TimeoutWarning (c + 1) tries (t * 2)) ?y"
    using raised(1,2) by (rule attempt_loop_raised)
  show ?case
  proof (intro allI impI)
    fix i assume i: "i < length (fst (snd (snd ?x)))"
    show "after_attempt get opens path fs c ?x i"
    proof (cases i)
      case 0
      show ?thesis
      proof (cases "c + 1 < tries")
        case True
        then have "fst (snd (snd ?y)) \<noteq> []" by (rule loop_attempts_nonempty)
        moreover from this have "fst (snd (snd ?y)) ! 0 = (c + 1, t * 2)"
          by (rule loop_attempts_nth0)
        ultimately show ?thesis using 0 raised(2) True
          by (simp add: after_attempt_def x)
      next
        case False
        then have "?y = (Inr None, fs, [], [])" by (simp add: attempt_loop_exhausted)
        then show ?thesis using 0 raised(2) False
          by (simp add: after_attempt_def x)
      qed
    next
      case (Suc j)
      with i have "j < length (fst (snd (snd ?y)))" by (simp add: x)
      with raised.IH have "after_attempt get opens path fs (c + 1) ?y j" by blast
      then show ?thesis unfolding Suc
        by (rule after_attempt_Suc [rotated 3]) (simp_all add: x)
    qed
  qed
next
  case (status c t s body ending)
  let ?y = "attempt_loop get opens path fs (c + 1) t"
  let ?x = "attempt_loop get opens path fs c t"
  have x: "?x = note_attempt (c, t) (StatusWarning s (c + 1) tries) ?y"
    using status(1,2,3) by (rule attempt_loop_status)
  show ?case
  proof (intro allI impI)
    fix i assume i: "i < length (fst (snd (snd ?x)))"
    show "after_attempt get opens path fs c ?x i"
    proof (cases i)
      case 0
      show ?thesis
      proof (cases "c + 1 < tries")
        case True
        then have "fst (snd (snd ?y)) \<noteq> []" by (rule loop_attempts_nonempty)
        moreover from this have "fst (snd (snd ?y)) ! 0 = (c + 1, t)"
          by (rule loop_attempts_nth0)
        ultimately show ?thesis using 0 status(2,3) True
          by (simp add: after_attempt_def x)
      next
        case False
        then have "?y = (Inr None, fs, [], [])" by (simp add: attempt_loop_exhausted)
        then show ?thesis using 0 status(2,3) False
          by (simp add: after_attempt_def x)
      qed
    next
      case (Suc j)
      with i have "j < length (fst (snd (snd ?y)))" by (simp add: x)
      with status.IH have "after_attempt get opens path fs (c + 1) ?y j" by blast
      then show ?thesis unfolding Suc
        by (rule after_attempt_Suc [rotated 3]) (simp_all add: x)
    qed
  qed
next
  case (ok c t body ending)
  then show ?case by (simp add: loop_steps after_attempt_def)
qed


lemma fetch_url_fields:
  "result (fetch_url g w fs e) = fst (attempt_loop (requests_get w e) (can_open w (snd e)) (snd e) fs 0 g)"
  "files (fetch_url g w fs e) = fst (snd (attempt_loop (requests_get w e) (can_open w (snd e)) (snd e) fs 0 g))"
  "attempts (fetch_url g w fs e) = fst (snd (snd (attempt_loop (requests_get w e) (can_open w (snd e)) (snd e) fs 0 g)))"
  "slept (fetch_url g w fs e) = randSleep (randint w e)"
  by (simp_all add: fetch_url_def split: prod.splits)

lemma fetch_after_attempt:
  assumes "k < length (attempts (fetch_url g w fs e))"
  shows "after_attempt (requests_get w e) (can_open w (snd e)) (snd e) fs 0
           (attempt_loop (requests_get w e) (can_open w (snd e)) (snd e) fs 0 g) k"
  using assms loop_after_attempt [of "requests_get w e" "can_open w (snd e)" "snd e" fs 0 g]
  by (simp add: fetch_url_fields)

lemma write_chunks_concat: "write_chunks fs path body = fs(path \<mapsto> concat body)"
proof -
  have "foldl (@) acc body = acc @ concat body" for acc :: string
    by (induction body arbitrary: acc) simp_all
  from this [of "[]"] show ?thesis by (simp add: write_chunks_def)
qed

text \<open>
  C2. In every fetch at most \<open>tries = 5\<close> GETs are issued. When the GET of attempt \<open>k\<close>
  raises, that attempt was made with the count \<open>k\<close>; if another attempt is allowed, it is
  made with the count \<open>k + 1\<close> and with exactly twice the timeout of attempt \<open>k\<close>;
  otherwise the loop ends and the fetch returns \<open>None\<close>.
\<close>

theorem transport_failure_doubles_timeout:
  "length (attempts (fetch_url g w fs e)) \<le> tries \<and> tries = 5 \<and>
   (\<forall>k < length (attempts (fetch_url g w fs e)).
      requests_get w e k (snd (attempts (fetch_url g w fs e) ! k)) = Raised \<longrightarrow>
      fst (attempts (fetch_url g w fs e) ! k) = k \<and>
      (if k + 1 < tries
       then Suc k < length (attempts (fetch_url g w fs e)) \<and>
            fst (attempts (fetch_url g w fs e) ! Suc k) = k + 1 \<and>
            snd (attempts (fetch_url g w fs e) ! Suc k) =
              2 * snd (attempts (fetch_url g w fs e) ! k)
       else Suc k = length (attempts (fetch_url g w fs e)) \<and>
            result (fetch_url g w fs e) = Inr None))"
proof (intro conjI allI impI)
  show "length (attempts (fetch_url g w fs e)) \<le> tries"
    using loop_attempts_length [of "requests_get w e" "can_open w (snd e)" "snd e" fs 0 g]
    by (simp add: fetch_url_fields)
  show "tries = 5" by (simp add: tries_def)
next
  fix k
  assume k: "k < length (attempts (fetch_url g w fs e))"
    and r: "requests_get w e k (snd (attempts (fetch_url g w fs e) ! k)) = Raised"
  from fetch_after_attempt [OF k] r
  show "fst (attempts (fetch_url g w fs e) ! k) = k"
    by (simp add: after_attempt_def fetch_url_fields)
  from fetch_after_attempt [OF k] r
  show "if k + 1 < tries
       then Suc k < length (attempts (fetch_url g w fs e)) \<and>
            fst (attempts (fetch_url g w fs e) ! Suc k) = k + 1 \<and>
            snd (attempts (fetch_url g w fs e) ! Suc k) =
              2 * snd (attempts (fetch_url g w fs e) ! k)
       else Suc k = length (attempts (fetch_url g w fs e)) \<and>
            result (fetch_url g w fs e) = Inr None"
    by (simp add: after_attempt_def fetch_url_fields split: if_splits)
qed

lemma flaky_fetch:
  "attempt_loop (flaky_get e) True path fs 0 180 =
     (Inr (Some path), fs(path \<mapsto> ''abcd''), [(0, 180), (1, 360), (2, 720), (3, 720)],
      [TimeoutWarning 1 5 360, TimeoutWarning 2 5 720, StatusWarning 503 3 5])"
  by (simp add: attempt_loop.simps flaky_get_def tries_def write_chunks_def)

theorem transport_failure_doubles_timeout_witness:
  "(1::nat) < length (attempts (fetch_url 180 (example_world flaky_get 100) Map.empty (''u'', ''p''))) \<and>
   requests_get (example_world flaky_get 100) (''u'', ''p'') 1
     (snd (attempts (fetch_url 180 (example_world flaky_get 100) Map.empty (''u'', ''p'')) ! 1)) = Raised \<and>
   attempts (fetch_url 180 (example_world flaky_get 100) Map.empty (''u'', ''p'')) ! 1 = (1, 360) \<and>
   attempts (fetch_url 180 (example_world flaky_get 100) Map.empty (''u'', ''p'')) ! Suc 1 = (2, 720)"
  using transport_failure_doubles_timeout
    [of 180 "example_world flaky_get 100" Map.empty "(''u'', ''p'')"]
  by (simp add: fetch_url_fields example_world_def flaky_fetch flaky_get_def tries_def)


text \<open>
  C3, as stated, fails: the GET is answered with status 200, the body breaks off after its
  first chunk, and the exception leaves \<open>fetch_url\<close>; no path is returned, and the file
  holds only the chunk written before.
\<close>

theorem status_200_returns_path_counterexample:
  "requests_get (example_world breaking_get 100) (cutoutbaseurl @ ''?ra=1&dec=1'', ''p'') 0 180 =
     Response 200 [''im''] BodyRaises \<and>
   result (fetch_url 180 (example_world breaking_get 100) Map.empty
     (cutoutbaseurl @ ''?ra=1&dec=1'', ''p'')) = Inl StreamError \<and>
   files (fetch_url 180 (example_world breaking_get 100) Map.empty
     (cutoutbaseurl @ ''?ra=1&dec=1'', ''p'')) ''p'' = Some ''im''"
  by (simp add: fetch_url_fields example_world_def breaking_get_def attempt_loop_ok tries_def
      write_chunks_concat)

text \<open>
  C3, amended. When the GET of attempt \<open>k\<close> returns a response, that attempt was made
  with the count \<open>k\<close>. If the status is 200, the destination file can be opened and the
  body is streamed to its end, the fetch ends with this attempt, returns the destination
  path, and the file at that path holds the chunks of the body in order. If the status is
  not a 2xx status, then, when another attempt is allowed, it is made with the count
  \<open>k + 1\<close> and the same timeout, and otherwise the loop ends and the fetch returns
  \<open>None\<close>.
\<close>

theorem status_response_handling:
  "\<forall>k < length (attempts (fetch_url g w fs e)). \<forall>s body ending.
      requests_get w e k (snd (attempts (fetch_url g w fs e) ! k)) = Response s body ending \<longrightarrow>
      fst (attempts (fetch_url g w fs e) ! k) = k \<and>
      (s = 200 \<and> can_open w (snd e) \<and> ending = EndOfBody \<longrightarrow>
         result (fetch_url g w fs e) = Inr (Some (snd e)) \<and>
         files (fetch_url g w fs e) = fs(snd e \<mapsto> concat body) \<and>
         Suc k = length (attempts (fetch_url g w fs e))) \<and>
      (s < 200 \<or> 300 \<le> s \<longrightarrow>
         (if k + 1 < tries
          then Suc k < length (attempts (fetch_url g w fs e)) \<and>
               attempts (fetch_url g w fs e) ! Suc k =
                 (k + 1, snd (attempts (fetch_url g w fs e) ! k))
          else Suc k = length (attempts (fetch_url g w fs e)) \<and>
               result (fetch_url g w fs e) = Inr None))"
proof (intro allI impI)
  fix k s body ending
  assume k: "k < length (attempts (fetch_url g w fs e))"
    and r: "requests_get w e k (snd (attempts (fetch_url g w fs e) ! k)) = Response s body ending"
  from fetch_after_attempt [OF k] r
  show "fst (attempts (fetch_url g w fs e) ! k) = k \<and>
      (s = 200 \<and> can_open w (snd e) \<and> ending = EndOfBody \<longrightarrow>
         result (fetch_url g w fs e) = Inr (Some (snd e)) \<and>
         files (fetch_url g w fs e) = fs(snd e \<mapsto> concat body) \<and>
         Suc k = length (attempts (fetch_url g w fs e))) \<and>
      (s < 200 \<or> 300 \<le> s \<longrightarrow>
         (if k + 1 < tries
          then Suc k < length (attempts (fetch_url g w fs e)) \<and>
               attempts (fetch_url g w fs e) ! Suc k =
                 (k + 1, snd (attempts (fetch_url g w fs e) ! k))
          else Suc k = length (attempts (fetch_url g w fs e)) \<and>
               result (fetch_url g w fs e) = Inr None))"
    by (auto simp add: after_attempt_def fetch_url_fields write_chunks_concat split: if_splits)
qed

theorem status_response_handling_witness:
  "(3::nat) < length (attempts (fetch_url 180 (example_world flaky_get 100) Map.empty (''u'', ''p''))) \<and>
   requests_get (example_world flaky_get 100) (''u'', ''p'') 2
     (snd (attempts (fetch_url 180 (example_world flaky_get 100) Map.empty (''u'', ''p'')) ! 2)) =
     Response 503 [] EndOfBody \<and>
   attempts (fetch_url 180 (example_world flaky_get 100) Map.empty (''u'', ''p'')) ! 2 = (2, 720) \<and>
   attempts (fetch_url 180 (example_world flaky_get 100) Map.empty (''u'', ''p'')) ! 3 = (3, 720) \<and>
   requests_get (example_world flaky_get 100) (''u'', ''p'') 3
     (snd (attempts (fetch_url 180 (example_world flaky_get 100) Map.empty (''u'', ''p'')) ! 3)) =
     Response 200 [''ab'', ''cd''] EndOfBody \<and>
   can_open (example_world flaky_get 100) ''p'' \<and>
   result (fetch_url 180 (example_world flaky_get 100) Map.empty (''u'', ''p'')) = Inr (Some ''p'') \<and>
   files (fetch_url 180 (example_world flaky_get 100) Map.empty (''u'', ''p'')) ''p'' = Some ''abcd''"
  using status_response_handling
    [of 180 "example_world flaky_get 100" Map.empty "(''u'', ''p'')"]
  by (simp add: fetch_url_fields example_world_def flaky_fetch flaky_get_def tries_def)

text \<open>
  The test in the code is \<open>status_code == 200\<close>: a 2xx status other than 200 is handled as
  a failed attempt too.
\<close>

lemma other_2xx_status_is_retried:
  "k < length (attempts (fetch_url g w fs e)) \<Longrightarrow>
   requests_get w e k (snd (attempts (fetch_url g w fs e) ! k)) = Response s body ending \<Longrightarrow>
   s \<noteq> 200 \<Longrightarrow> k + 1 < tries \<Longrightarrow>
   Suc k < length (attempts (fetch_url g w fs e)) \<and>
   attempts (fetch_url g w fs e) ! Suc k = (k + 1, snd (attempts (fetch_url g w fs e) ! k))"
  using fetch_after_attempt [of k g w fs e]
  by (simp add: after_attempt_def fetch_url_fields)

text \<open>
  The exits of the 200 branch by an exception: when \<open>open\<close> raises, nothing is written;
  when the body breaks off, the file keeps the chunks written before. In both cases the
  exception leaves \<open>fetch_url\<close> and no further attempt is made.
\<close>

lemma status_200_exception_exits:
  "k < length (attempts (fetch_url g w fs e)) \<Longrightarrow>
   requests_get w e k (snd (attempts (fetch_url g w fs e) ! k)) = Response 200 body ending \<Longrightarrow>
   Suc k = length (attempts (fetch_url g w fs e)) \<and>
   (\<not> can_open w (snd e) \<longrightarrow>
      result (fetch_url g w fs e) = Inl OSError \<and> files (fetch_url g w fs e) = fs) \<and>
   (can_open w (snd e) \<and> ending = BodyRaises \<longrightarrow>
      result (fetch_url g w fs e) = Inl StreamError \<and>
      files (fetch_url g w fs e) = fs(snd e \<mapsto> concat body))"
  using fetch_after_attempt [of k g w fs e]
  by (auto simp add: after_attempt_def fetch_url_fields write_chunks_concat)

lemma refusing_fetch:
  "attempt_loop (refusing_get e) opens path fs 0 180 =
     (Inr None, fs, [(0, 180), (1, 180), (2, 180), (3, 180), (4, 180)],
      [StatusWarning 404 1 5, StatusWarning 404 2 5, StatusWarning 404 3 5,
       StatusWarning 404 4 5, StatusWarning 404 5 5])"
  by (simp add: attempt_loop.simps refusing_get_def tries_def)

text \<open>
  C7, as stated, fails: two fetches of different items that both use up their five attempts
  on status 404 return the same value \<open>None\<close>, which names neither item.
\<close>

theorem exhausted_fetch_carries_item_counterexample:
  "result (fetch_url 180 (example_world refusing_get 100) Map.empty (''u1'', ''1.jpeg'')) = Inr None \<and>
   result (fetch_url 180 (example_world refusing_get 100) Map.empty (''u2'', ''2.jpeg'')) = Inr None \<and>
   length (attempts (fetch_url 180 (example_world refusing_get 100) Map.empty (''u1'', ''1.jpeg''))) = tries"
  by (simp add: fetch_url_fields example_world_def refusing_fetch tries_def)

text \<open>
  C7, amended. A fetch none of whose attempts is answered with status 200 returns \<open>None\<close>
  after exactly \<open>tries\<close> attempts and leaves the files as they were.
\<close>

theorem exhausted_fetch_returns_None:
  assumes "\<forall>k < length (attempts (fetch_url g w fs e)). \<forall>body ending.
      requests_get w e k (snd (attempts (fetch_url g w fs e) ! k)) \<noteq> Response 200 body ending"
  shows "result (fetch_url g w fs e) = Inr None \<and>
     length (attempts (fetch_url g w fs e)) = tries \<and>
     files (fetch_url g w fs e) = fs"
proof -
  let ?as = "attempts (fetch_url g w fs e)"
  have "0 < tries" by (simp add: tries_def)
  then have ne: "?as \<noteq> []"
    using loop_attempts_nonempty [of 0 "requests_get w e" "can_open w (snd e)" "snd e" fs g]
    by (simp add: fetch_url_fields)
  define k where "k = length ?as - 1"
  with ne have k: "k < length ?as" and last: "Suc k = length ?as" by simp_all
  from assms k have no200: "\<And>body ending. requests_get w e k (snd (?as ! k)) \<noteq> Response 200 body ending"
    by blast
  from fetch_after_attempt [OF k] no200 last
  have "result (fetch_url g w fs e) = Inr None \<and> files (fetch_url g w fs e) = fs"
    by (auto simp add: after_attempt_def fetch_url_fields split: response.splits if_splits)
  moreover from this have "length ?as = tries"
    using loop_attempts_failed [of "requests_get w e" "can_open w (snd e)" "snd e" fs 0 g]
    by (simp add: fetch_url_fields)
  ultimately show ?thesis by simp
qed

theorem exhausted_fetch_returns_None_witness:
  "result (fetch_url 180 (example_world refusing_get 100) Map.empty (''u1'', ''1.jpeg'')) = Inr None \<and>
   length (attempts (fetch_url 180 (example_world refusing_get 100) Map.empty (''u1'', ''1.jpeg''))) = 5 \<and>
   files (fetch_url 180 (example_world refusing_get 100) Map.empty (''u1'', ''1.jpeg'')) = Map.empty"
proof -
  have h: "\<forall>k < length (attempts (fetch_url 180 (example_world refusing_get 100) Map.empty (''u1'', ''1.jpeg''))).
      \<forall>body ending. requests_get (example_world refusing_get 100) (''u1'', ''1.jpeg'') k
        (snd (attempts (fetch_url 180 (example_world refusing_get 100) Map.empty (''u1'', ''1.jpeg'')) ! k))
        \<noteq> Response 200 body ending"
    by (simp add: example_world_def refusing_get_def)
  from exhausted_fetch_returns_None [OF h] show ?thesis by (simp add: tries_def)
qed

text \<open>
  C9, as stated, fails: \<open>random.randint(1, 101)\<close> can return 101, and the fetch then
  sleeps 5.05 seconds, which is not below 5.
\<close>

theorem jitter_below_five_counterexample:
  "randint (example_world refusing_get 101) (''u'', ''p'') \<in> randint_range 1 101 \<and>
   \<not> slept (fetch_url 180 (example_world refusing_get 101) Map.empty (''u'', ''p'')) < 5"
  by (simp add: fetch_url_fields example_world_def randint_range_def randSleep_def)

text \<open>
  C9, amended. The time slept before the first attempt lies in the closed interval from
  0.05 to 5.05 seconds.
\<close>

theorem jitter_bounds:
  "randint w e \<in> randint_range 1 101 \<Longrightarrow>
   1 / 20 \<le> slept (fetch_url g w fs e) \<and> slept (fetch_url g w fs e) \<le> 101 / 20"
proof -
  assume "randint w e \<in> randint_range 1 101"
  then have "1 \<le> randint w e" "randint w e \<le> 101" by (simp_all add: randint_range_def)
  then have "(1::rat) \<le> of_int (randint w e)" "(of_int (randint w e) :: rat) \<le> 101"
    by simp_all
  then show ?thesis by (simp add: fetch_url_fields randSleep_def)
qed

theorem jitter_bounds_witness:
  "randint (example_world refusing_get 100) (''u'', ''p'') \<in> randint_range 1 101 \<and>
   1 / 20 \<le> slept (fetch_url 180 (example_world refusing_get 100) Map.empty (''u'', ''p'')) \<and>
   slept (fetch_url 180 (example_world refusing_get 100) Map.empty (''u'', ''p'')) \<le> 101 / 20"
proof -
  have h: "randint (example_world refusing_get 100) (''u'', ''p'') \<in> randint_range 1 101"
    by (simp add: example_world_def randint_range_def)
  from jitter_bounds [OF h, of 180 Map.empty] h show ?thesis by simp
qed

section \<open>Filenames and the loop over the rows\<close>

lemma digit_val_digit_char: "d < 10 \<Longrightarrow> digit_val (digit_char d) = d"
proof -
  assume "d < 10"
  then have "d = 0 \<or> d = 1 \<or> d = 2 \<or> d = 3 \<or> d = 4 \<or> d = 5 \<or> d = 6 \<or> d = 7 \<or>
    d = 8 \<or> d = 9" by arith
  then show ?thesis
    by (elim disjE) (simp_all add: digit_val_def digit_char_def)
qed

lemma nat_of_str_str_nat: "nat_of_str (str_nat n) = n"
proof (induction n rule: str_nat.induct)
  case (1 n)
  show ?case
  proof (cases "n < 10")
    case True
    then show ?thesis
      by (simp add: str_nat.simps [of n] nat_of_str_def digit_val_digit_char)
  next
    case False
    with 1 have "nat_of_str (str_nat (n div 10)) = n div 10" by simp
    with False show ?thesis
      by (simp add: str_nat.simps [of n] nat_of_str_def digit_val_digit_char)
  qed
qed

lemma str_nat_inject: "str_nat m = str_nat n \<longleftrightarrow> m = n"
  using nat_of_str_str_nat by metis

lemma digit_char_not_slash: "d < 10 \<Longrightarrow> digit_char d \<noteq> CHR ''/''"
proof -
  assume "d < 10"
  then have "d = 0 \<or> d = 1 \<or> d = 2 \<or> d = 3 \<or> d = 4 \<or> d = 5 \<or> d = 6 \<or> d = 7 \<or>
    d = 8 \<or> d = 9" by arith
  then show ?thesis
    by (elim disjE) (simp_all add: digit_char_def)
qed

lemma str_nat_hd: "str_nat n \<noteq> [] \<and> hd (str_nat n) \<noteq> CHR ''/''"
proof (induction n rule: str_nat.induct)
  case (1 n)
  show ?case
  proof (cases "n < 10")
    case True
    then show ?thesis by (simp add: str_nat.simps [of n] digit_char_not_slash)
  next
    case False
    with 1 show ?thesis by (simp add: str_nat.simps [of n])
  qed
qed

lemma jpeg_name_inject: "jpeg_name m = jpeg_name n \<longleftrightarrow> m = n"
  by (simp add: jpeg_name_def str_nat_inject)

lemma os_path_join_jpeg:
  "os_path_join d (jpeg_name k) =
     (if d = [] \<or> last d = CHR ''/'' then d else d @ ''/'') @ jpeg_name k"
  using str_nat_hd [of k] by (simp add: os_path_join_def jpeg_name_def)

lemma os_path_join_jpeg_inject:
  "os_path_join d (jpeg_name m) = os_path_join d (jpeg_name n) \<longleftrightarrow> m = n"
  by (simp only: os_path_join_jpeg same_append_eq jpeg_name_inject)

lemma row_step_skipped:
  "str w (snd (snd row)) \<in> set ids \<Longrightarrow> row_step w ids st row = st"
  by (cases row) (simp add: row_step_def)

lemma row_step_notfound:
  "str w (snd (snd row)) \<notin> set ids \<Longrightarrow> row_url w row = None \<Longrightarrow>
   row_step w ids st row =
     st\<lparr>objids := objids st @ [jpeg_name (counter st)], counter := counter st + 1,
        notfound := notfound st @ [notfound_row w row]\<rparr>"
  by (cases row) (simp add: row_step_def row_url_def notfound_row_def Let_def)

lemma row_step_url:
  "str w (snd (snd row)) \<notin> set ids \<Longrightarrow> row_url w row = Some url \<Longrightarrow>
   row_step w ids st row =
     st\<lparr>objids := objids st @ [jpeg_name (counter st)], counter := counter st + 1,
        allUrls := allUrls st @ [url]\<rparr>"
  by (cases row) (simp add: row_step_def row_url_def Let_def)

lemma pending_Cons:
  "pending w ids (row # rows) =
     (if str w (snd (snd row)) \<in> set ids then pending w ids rows else row # pending w ids rows)"
  by (cases row) (simp add: pending_def)

lemma upt_first: "[c..<Suc (c + n)] = c # [Suc c..<Suc (c + n)]"
  by (simp add: upt_conv_Cons del: upt_Suc)

lemma rows_loop:
  "foldl (row_step w ids) st rows =
     st\<lparr>counter := counter st + length (pending w ids rows),
        objids := objids st @
          map jpeg_name
            [counter st ..< counter st + length (pending w ids rows)],
        allUrls := allUrls st @ List.map_filter (row_url w) (pending w ids rows),
        notfound := notfound st @
          map (notfound_row w) (filter (\<lambda>row. row_url w row = None) (pending w ids rows))\<rparr>"
proof (induction rows arbitrary: st)
  case Nil
  show ?case by (simp add: pending_def)
next
  case (Cons row rows)
  show ?case
  proof (cases "str w (snd (snd row)) \<in> set ids")
    case True
    then show ?thesis by (simp add: row_step_skipped pending_Cons Cons.IH)
  next
    case False
    show ?thesis
    proof (cases "row_url w row")
      case None
      with False show ?thesis
        by (simp add: row_step_notfound pending_Cons Cons.IH upt_first del: upt_Suc)
    next
      case (Some url)
      with False show ?thesis
        by (simp add: row_step_url pending_Cons Cons.IH upt_first del: upt_Suc)
    qed
  qed
qed

section \<open>Properties of \<open>multiobject_download\<close>\<close>

lemma pair_entries_zip:
  "length urlList \<le> length filenames \<Longrightarrow>
   pair_entries urlList d filenames =
     Inr (zip urlList (map (os_path_join d) (take (length urlList) filenames)))"
  by (simp add: pair_entries_def list_eq_iff_nth_eq nth_enumerate_eq)

lemma pair_entries_short:
  "length filenames < length urlList \<Longrightarrow> pair_entries urlList d filenames = Inl IndexError"
  by (simp add: pair_entries_def)

lemma loop_result_path:
  "fst (attempt_loop get opens path fs c t) = Inr (Some p) \<Longrightarrow> p = path"
  by (induction c t rule: retry_induct [of _ get])
     (auto simp add: loop_steps split: if_splits body_end.splits)

lemma fetch_url_result_path:
  "result (fetch_url g w fs e) = Inr (Some p) \<Longrightarrow> p = snd e"
  using loop_result_path [of "requests_get w e" "can_open w (snd e)" "snd e" fs 0 g p]
  by (simp add: fetch_url_fields)

lemma executor_map_Cons:
  "fst (executor_map g w fs (e # es)) =
     fetch_url g w fs e # fst (executor_map g w (files (fetch_url g w fs e)) es)"
  "snd (executor_map g w fs (e # es)) = snd (executor_map g w (files (fetch_url g w fs e)) es)"
  by (simp_all add: Let_def case_prod_unfold)

lemma executor_map_results:
  "list_all2 (\<lambda>e out. \<forall>p. result out = Inr (Some p) \<longrightarrow> p = snd e) arr
     (fst (executor_map g w fs arr))"
proof (induction arr arbitrary: fs)
  case Nil
  show ?case by simp
next
  case (Cons e es)
  show ?case
    using Cons.IH [of "files (fetch_url g w fs e)"] fetch_url_result_path [of g w fs e]
    by (simp add: executor_map_Cons del: executor_map.simps)
qed

lemma executor_map_length: "length (fst (executor_map g w fs arr)) = length arr"
  using executor_map_results [of arr g w fs] by (simp add: list_all2_lengthD)

lemma collect_Inr:
  "fst (collect n rp (Inr r # rs)) = fst (collect n (rp @ [r]) rs)"
  "fst (snd (collect n rp (Inr r # rs))) =
     \<lparr>shown = Suc (length rp), total = n, percent = of_nat (Suc (length rp)) / of_nat n * 100\<rparr> #
     fst (snd (collect n (rp @ [r]) rs))"
  "snd (snd (collect n rp (Inr r # rs))) = snd (snd (collect n (rp @ [r]) rs))"
  by (simp_all add: Let_def case_prod_unfold)

lemma collect_returnPaths:
  "fst (collect n rp rs) = rp @ map projr (takeWhile (\<lambda>r. \<not> isl r) rs)"
proof (induction rs arbitrary: rp)
  case Nil
  show ?case by simp
next
  case (Cons r rs)
  show ?case
  proof (cases r)
    case (Inl e)
    then show ?thesis by simp
  next
    case (Inr v)
    with Cons.IH [of "rp @ [v]"] show ?thesis
      by (simp add: collect_Inr del: collect.simps)
  qed
qed

lemma collect_reports:
  "fst (snd (collect n rp rs)) =
     map (\<lambda>i. \<lparr>shown = length rp + i + 1, total = n,
               percent = of_nat (length rp + i + 1) / of_nat n * 100\<rparr>)
       [0..<length (takeWhile (\<lambda>r. \<not> isl r) rs)]"
proof (induction rs arbitrary: rp)
  case Nil
  show ?case by simp
next
  case (Cons r rs)
  show ?case
  proof (cases r)
    case (Inl e)
    then show ?thesis by simp
  next
    case (Inr v)
    have "[0..<Suc k] = 0 # map Suc [0..<k]" for k
      by (simp add: upt_conv_Cons map_Suc_upt del: upt_Suc)
    with Inr Cons.IH [of "rp @ [v]"] show ?thesis
      by (simp add: collect_Inr comp_def del: collect.simps upt_Suc)
  qed
qed

lemma collect_error:
  "snd (snd (collect n rp rs)) = None \<longleftrightarrow> (\<forall>r \<in> set rs. \<not> isl r)"
proof (induction rs arbitrary: rp)
  case Nil
  show ?case by simp
next
  case (Cons r rs)
  show ?case
  proof (cases r)
    case (Inl e)
    then show ?thesis by simp
  next
    case (Inr v)
    with Cons.IH [of "rp @ [v]"] show ?thesis
      by (simp add: collect_Inr del: collect.simps)
  qed
qed


lemma multiobject_download_fields:
  assumes "length urlList \<le> length filenames"
  shows "thisArray (multiobject_download w fs urlList d filenames t cd) =
      zip urlList (map (os_path_join d) (take (length urlList) filenames))"
    and "fetched (multiobject_download w fs urlList d filenames t cd) =
      fst (executor_map t w fs (thisArray (multiobject_download w fs urlList d filenames t cd)))"
    and "files_after (multiobject_download w fs urlList d filenames t cd) =
      snd (executor_map t w fs (thisArray (multiobject_download w fs urlList d filenames t cd)))"
    and "reports (multiobject_download w fs urlList d filenames t cd) =
      map (\<lambda>i. \<lparr>shown = i + 1, total = length urlList,
                percent = of_nat (i + 1) / of_nat (length urlList) * 100\<rparr>)
        [0..<length (takeWhile (\<lambda>r. \<not> isl r)
           (map result (fetched (multiobject_download w fs urlList d filenames t cd))))]"
    and "returned (multiobject_download w fs urlList d filenames t cd) =
      (case snd (snd (collect (length urlList) []
          (map result (fetched (multiobject_download w fs urlList d filenames t cd))))) of
         Some e \<Rightarrow> Inl e
       | None \<Rightarrow> Inr (map snd (filter (\<lambda>e. Some (snd e) \<in>
           set (fst (collect (length urlList) []
             (map result (fetched (multiobject_download w fs urlList d filenames t cd))))))
           (thisArray (multiobject_download w fs urlList d filenames t cd)))))"
  using assms
  by (simp_all add: multiobject_download_def pair_entries_zip Let_def case_prod_unfold
      collect_reports cong: option.case_cong)

lemma multiobject_download_short:
  "length filenames < length urlList \<Longrightarrow>
   multiobject_download w fs urlList d filenames t cd =
     \<lparr>returned = Inl IndexError, files_after = fs, reports = [], thisArray = [], fetched = []\<rparr>"
  by (simp add: multiobject_download_def pair_entries_short)

lemma reports_length:
  "length (reports (multiobject_download w fs urlList d filenames t cd)) \<le>
     length (fetched (multiobject_download w fs urlList d filenames t cd)) \<and>
   length (fetched (multiobject_download w fs urlList d filenames t cd)) \<le> length urlList"
proof (cases "length urlList \<le> length filenames")
  case True
  note f = multiobject_download_fields [OF True, of w fs d t cd]
  have "length (takeWhile P xs) \<le> length xs" for P and xs :: "(error + string option) list"
    by (rule length_takeWhile_le)
  from this [of "\<lambda>r. \<not> isl r"
      "map result (fetched (multiobject_download w fs urlList d filenames t cd))"]
  have "length (reports (multiobject_download w fs urlList d filenames t cd)) \<le>
     length (fetched (multiobject_download w fs urlList d filenames t cd))"
    by (simp add: f(4))
  moreover have "length (fetched (multiobject_download w fs urlList d filenames t cd)) =
      length urlList"
    using True by (simp add: f(2) executor_map_length f(1))
  ultimately show ?thesis by simp
next
  case False
  then show ?thesis by (simp add: multiobject_download_short)
qed

lemma reports_nth:
  assumes "i < length (reports (multiobject_download w fs urlList d filenames t cd))"
  shows "reports (multiobject_download w fs urlList d filenames t cd) ! i =
     \<lparr>shown = i + 1, total = length urlList,
      percent = of_nat (i + 1) / of_nat (length urlList) * 100\<rparr>"
proof (cases "length urlList \<le> length filenames")
  case True
  note f = multiobject_download_fields [OF True, of w fs d t cd]
  from assms show ?thesis unfolding f(4) by simp
next
  case False
  with assms show ?thesis by (simp add: multiobject_download_short)
qed

text \<open>
  C6, amended. Within a call of \<open>multiobject_download\<close>, the line printed after the
  result number \<open>i + 1\<close> of the batch shows the number of urls of that batch as the
  total, and, as long as every fetch collected so far in the batch has returned a path, its
  percentage is the number of items of the batch downloaded so far, divided by the number
  of urls of the batch, times 100.
\<close>

theorem batch_progress_percentage:
  "\<forall>i < length (reports (multiobject_download w fs urlList d filenames t cd)).
     i < length (fetched (multiobject_download w fs urlList d filenames t cd)) \<and>
     total (reports (multiobject_download w fs urlList d filenames t cd) ! i) = length urlList \<and>
     ((\<forall>j \<le> i. got_path (fetched (multiobject_download w fs urlList d filenames t cd) ! j)) \<longrightarrow>
        percent (reports (multiobject_download w fs urlList d filenames t cd) ! i) =
          of_nat (length (filter got_path
            (take (Suc i) (fetched (multiobject_download w fs urlList d filenames t cd))))) /
          of_nat (length urlList) * 100)"
proof (intro allI impI conjI)
  fix i
  let ?dl = "multiobject_download w fs urlList d filenames t cd"
  assume i: "i < length (reports ?dl)"
  with reports_length [of w fs urlList d filenames t cd]
  show il: "i < length (fetched ?dl)" by simp
  from reports_nth [OF i] show "total (reports ?dl ! i) = length urlList" by simp
  assume all: "\<forall>j \<le> i. got_path (fetched ?dl ! j)"
  have "\<forall>x \<in> set (take (Suc i) (fetched ?dl)). got_path x"
  proof
    fix x assume "x \<in> set (take (Suc i) (fetched ?dl))"
    then obtain j where "j < length (take (Suc i) (fetched ?dl))"
      "x = take (Suc i) (fetched ?dl) ! j"
      by (auto simp: in_set_conv_nth)
    with all show "got_path x" by simp
  qed
  then have "filter got_path (take (Suc i) (fetched ?dl)) = take (Suc i) (fetched ?dl)"
    by simp
  with il have "length (filter got_path (take (Suc i) (fetched ?dl))) = i + 1" by simp
  with reports_nth [OF i]
  show "percent (reports ?dl ! i) =
      of_nat (length (filter got_path (take (Suc i) (fetched ?dl)))) /
      of_nat (length urlList) * 100"
    by simp
qed

section \<open>Properties of a run\<close>

lemma length_map_filter_le: "length (List.map_filter f xs) \<le> length xs"
  by (simp add: map_filter_def)

lemma joined_names_distinct:
  "distinct (map (os_path_join d) (take k (map jpeg_name [a..<b])))"
proof -
  have "inj_on (\<lambda>n. os_path_join d (jpeg_name n)) (set [a..<b])"
    by (rule inj_onI) (simp add: os_path_join_jpeg_inject)
  then have "distinct (map (\<lambda>n. os_path_join d (jpeg_name n)) [a..<b])"
    by (simp add: distinct_map)
  then have "distinct (take k (map (\<lambda>n. os_path_join d (jpeg_name n)) [a..<b]))"
    by (rule distinct_take)
  then show ?thesis by (simp add: take_map comp_def)
qed

lemma names_distinct: "distinct (map jpeg_name [a..<b])"
  by (simp add: distinct_map inj_on_def jpeg_name_inject)

lemma joined_names_disjoint:
  assumes "A \<subseteq> (\<lambda>n. os_path_join d (jpeg_name n)) ` {a..<b}"
    and "B \<subseteq> (\<lambda>n. os_path_join d (jpeg_name n)) ` {b..<c}"
  shows "A \<inter> B = {}"
proof (rule ccontr)
  assume "A \<inter> B \<noteq> {}"
  then obtain x where "x \<in> A" "x \<in> B" by blast
  with assms obtain m n where "m \<in> {a..<b}" "n \<in> {b..<c}"
    "x = os_path_join d (jpeg_name m)" "x = os_path_join d (jpeg_name n)" by blast
  then show False by (simp add: os_path_join_jpeg_inject)
qed

lemma pending_append: "pending w ids (xs @ ys) = pending w ids xs @ pending w ids ys"
  by (simp add: pending_def)

lemma map_filter_append: "List.map_filter f (xs @ ys) = List.map_filter f xs @ List.map_filter f ys"
  by (simp add: map_filter_def)

lemma batch_step_fields:
  "run_counter (batch_step w d ids st batch) = run_counter st + length (pending w ids batch)"
  "run_notfound (batch_step w d ids st batch) =
     run_notfound st @
     map (notfound_row w) (filter (\<lambda>row. row_url w row = None) (pending w ids batch))"
  "run_batches (batch_step w d ids st batch) =
     run_batches st @
     [(map jpeg_name [run_counter st ..< run_counter st + length (pending w ids batch)],
       List.map_filter (row_url w) (pending w ids batch),
       multiobject_download w (run_files st) (List.map_filter (row_url w) (pending w ids batch)) d
         (map jpeg_name [run_counter st ..< run_counter st + length (pending w ids batch)])
         180 (length batch))]"
  "run_error (batch_step w d ids st batch) =
     (case returned (multiobject_download w (run_files st)
         (List.map_filter (row_url w) (pending w ids batch)) d
         (map jpeg_name [run_counter st ..< run_counter st + length (pending w ids batch)])
         180 (length batch)) of
        Inl e \<Rightarrow> Some e | Inr localUrls \<Rightarrow> run_error st)"
  "run_ledger (batch_step w d ids st batch) =
     (case returned (multiobject_download w (run_files st)
         (List.map_filter (row_url w) (pending w ids batch)) d
         (map jpeg_name [run_counter st ..< run_counter st + length (pending w ids batch)])
         180 (length batch)) of
        Inl e \<Rightarrow> run_ledger st
      | Inr localUrls \<Rightarrow> run_ledger st @ map (\<lambda>item. [item]) localUrls)"
  by (simp_all add: batch_step_def rows_loop Let_def split: sum.splits)

lemma batch_queue:
  "map fst (thisArray (multiobject_download w fs (List.map_filter f rows) d
      (map jpeg_name [a ..< a + length rows]) t cd)) = List.map_filter f rows"
  "map snd (thisArray (multiobject_download w fs (List.map_filter f rows) d
      (map jpeg_name [a ..< a + length rows]) t cd)) =
     map (os_path_join d) (take (length (List.map_filter f rows))
       (map jpeg_name [a ..< a + length rows]))"
proof -
  have len: "length (List.map_filter f rows) \<le> length (map jpeg_name [a ..< a + length rows])"
    by (simp add: length_map_filter_le)
  note fl = multiobject_download_fields(1) [OF len, of w fs d t cd]
  from len show "map fst (thisArray (multiobject_download w fs (List.map_filter f rows) d
      (map jpeg_name [a ..< a + length rows]) t cd)) = List.map_filter f rows"
    by (simp add: fl del: take_map)
  from len show "map snd (thisArray (multiobject_download w fs (List.map_filter f rows) d
      (map jpeg_name [a ..< a + length rows]) t cd)) =
     map (os_path_join d) (take (length (List.map_filter f rows))
       (map jpeg_name [a ..< a + length rows]))"
    by (simp add: fl del: take_map)
qed

lemma batch_step_queue:
  "queued (batch_step w d ids st batch) =
     queued st @ thisArray (multiobject_download w (run_files st)
         (List.map_filter (row_url w) (pending w ids batch)) d
         (map jpeg_name [run_counter st ..< run_counter st + length (pending w ids batch)])
         180 (length batch))"
  "assigned_filenames (batch_step w d ids st batch) =
     assigned_filenames st @
     map jpeg_name [run_counter st ..< run_counter st + length (pending w ids batch)]"
  by (simp_all add: queued_def assigned_filenames_def batch_step_fields)

lemma main_loop_Cons:
  "main_loop w d ids st (batch # batches) =
     (if run_error (batch_step w d ids st batch) \<noteq> None then batch_step w d ids st batch
      else main_loop w d ids (batch_step w d ids st batch) batches)"
  by (simp add: Let_def)

lemma main_loop_counter_mono: "run_counter st \<le> run_counter (main_loop w d ids st batches)"
proof (induction batches arbitrary: st)
  case Nil
  show ?case by simp
next
  case (Cons batch batches)
  have "run_counter st \<le> run_counter (batch_step w d ids st batch)"
    by (simp add: batch_step_fields)
  with Cons.IH [of "batch_step w d ids st batch"] show ?case
    by (simp add: main_loop_Cons del: main_loop.simps)
qed

lemma upt_append_range: "a \<le> b \<Longrightarrow> b \<le> c \<Longrightarrow> [a..<b] @ [b..<c] = [a..<c]"
  by (metis le_Suc_ex upt_add_eq_append)

lemma main_loop_filenames:
  "assigned_filenames (main_loop w d ids st batches) =
     assigned_filenames st @
     map jpeg_name [run_counter st ..< run_counter (main_loop w d ids st batches)]"
proof (induction batches arbitrary: st)
  case Nil
  show ?case by simp
next
  case (Cons batch batches)
  let ?st1 = "batch_step w d ids st batch"
  have c1: "run_counter ?st1 = run_counter st + length (pending w ids batch)"
    by (simp add: batch_step_fields)
  have a1: "assigned_filenames ?st1 =
      assigned_filenames st @ map jpeg_name [run_counter st ..< run_counter ?st1]"
    by (simp add: batch_step_queue c1)
  show ?case
  proof (cases "run_error ?st1 \<noteq> None")
    case True
    with a1 show ?thesis by (simp add: main_loop_Cons del: main_loop.simps)
  next
    case False
    let ?st' = "main_loop w d ids ?st1 batches"
    have le1: "run_counter st \<le> run_counter ?st1" by (simp add: c1)
    have le2: "run_counter ?st1 \<le> run_counter ?st'" by (rule main_loop_counter_mono)
    have "assigned_filenames ?st' = assigned_filenames st @
        map jpeg_name ([run_counter st ..< run_counter ?st1] @
          [run_counter ?st1 ..< run_counter ?st'])"
      using Cons.IH [of ?st1] a1 by simp
    also have "[run_counter st ..< run_counter ?st1] @ [run_counter ?st1 ..< run_counter ?st'] =
        [run_counter st ..< run_counter ?st']"
      using le1 le2 by (rule upt_append_range)
    finally show ?thesis using False by (simp add: main_loop_Cons del: main_loop.simps)
  qed
qed


lemma main_loop_queue:
  "\<exists>qs. queued (main_loop w d ids st batches) = queued st @ qs \<and>
     distinct (map snd qs) \<and>
     set (map snd qs) \<subseteq>
       (\<lambda>n. os_path_join d (jpeg_name n)) `
         {run_counter st ..< run_counter (main_loop w d ids st batches)}"
proof (induction batches arbitrary: st)
  case Nil
  show ?case by simp
next
  case (Cons batch batches)
  let ?J = "\<lambda>n. os_path_join d (jpeg_name n)"
  let ?st1 = "batch_step w d ids st batch"
  let ?dl = "multiobject_download w (run_files st)
         (List.map_filter (row_url w) (pending w ids batch)) d
         (map jpeg_name [run_counter st ..< run_counter st + length (pending w ids batch)])
         180 (length batch)"
  have c1: "run_counter ?st1 = run_counter st + length (pending w ids batch)"
    by (simp add: batch_step_fields)
  have q1: "queued ?st1 = queued st @ thisArray ?dl" by (rule batch_step_queue)
  have p1: "map snd (thisArray ?dl) =
      map (os_path_join d) (take (length (List.map_filter (row_url w) (pending w ids batch)))
        (map jpeg_name [run_counter st ..< run_counter st + length (pending w ids batch)]))"
    by (rule batch_queue)
  have d1: "distinct (map snd (thisArray ?dl))"
    unfolding p1 by (rule joined_names_distinct)
  have "set (take k (map ?J [a..<b])) \<subseteq> ?J ` {a..<b}" for k a b
    using set_take_subset [of k "map ?J [a..<b]"] by auto
  then have s1: "set (map snd (thisArray ?dl)) \<subseteq> ?J ` {run_counter st ..< run_counter ?st1}"
    unfolding p1 c1 by (simp add: take_map comp_def)
  show ?case
  proof (cases "run_error ?st1 \<noteq> None")
    case True
    then have "main_loop w d ids st (batch # batches) = ?st1"
      by (simp add: main_loop_Cons del: main_loop.simps)
    with q1 d1 s1 show ?thesis by auto
  next
    case False
    let ?st' = "main_loop w d ids ?st1 batches"
    from False have m: "main_loop w d ids st (batch # batches) = ?st'"
      by (simp add: main_loop_Cons del: main_loop.simps)
    from Cons.IH [of ?st1] obtain qs2 where
      q2: "queued ?st' = queued ?st1 @ qs2" and d2: "distinct (map snd qs2)"
      and s2: "set (map snd qs2) \<subseteq> ?J ` {run_counter ?st1 ..< run_counter ?st'}"
      by blast
    have le1: "run_counter st \<le> run_counter ?st1" by (simp add: c1)
    have le2: "run_counter ?st1 \<le> run_counter ?st'" by (rule main_loop_counter_mono)
    from q1 q2 have q: "queued ?st' = queued st @ (thisArray ?dl @ qs2)" by simp
    have "set (map snd (thisArray ?dl)) \<inter> set (map snd qs2) = {}"
      using s1 s2 by (rule joined_names_disjoint)
    with d1 d2 have dd: "distinct (map snd (thisArray ?dl @ qs2))" by simp
    have "{run_counter st ..< run_counter ?st1} \<subseteq> {run_counter st ..< run_counter ?st'}"
      "{run_counter ?st1 ..< run_counter ?st'} \<subseteq> {run_counter st ..< run_counter ?st'}"
      using le1 le2 by auto
    with s1 s2 have ss: "set (map snd (thisArray ?dl @ qs2)) \<subseteq>
        ?J ` {run_counter st ..< run_counter ?st'}"
      by auto
    from q dd ss show ?thesis unfolding m by blast
  qed
qed

lemma batch_step_error_kept:
  "run_error st \<noteq> None \<Longrightarrow> run_error (batch_step w d ids st batch) \<noteq> None"
  by (simp add: batch_step_fields split: sum.splits)

lemma main_loop_complete:
  assumes "run_error (main_loop w d ids st batches) = None"
  shows "run_counter (main_loop w d ids st batches) =
       run_counter st + length (pending w ids (concat batches)) \<and>
     run_notfound (main_loop w d ids st batches) =
       run_notfound st @ map (notfound_row w)
         (filter (\<lambda>row. row_url w row = None) (pending w ids (concat batches))) \<and>
     map fst (queued (main_loop w d ids st batches)) =
       map fst (queued st) @ List.map_filter (row_url w) (pending w ids (concat batches)) \<and>
     length (run_batches (main_loop w d ids st batches)) =
       length (run_batches st) + length batches"
  using assms
proof (induction batches arbitrary: st)
  case Nil
  show ?case by (simp add: pending_def)
next
  case (Cons batch batches)
  let ?st1 = "batch_step w d ids st batch"
  from Cons.prems have ok: "run_error ?st1 = None"
    by (simp add: main_loop_Cons del: main_loop.simps split: if_splits)
  then have m: "main_loop w d ids st (batch # batches) = main_loop w d ids ?st1 batches"
    by (simp add: main_loop_Cons del: main_loop.simps)
  from Cons.prems have "run_error (main_loop w d ids ?st1 batches) = None" by (simp only: m)
  from Cons.IH [OF this] show ?case
    unfolding m
    by (simp add: batch_step_fields(1,2,3) batch_step_queue(1) batch_queue(1)
        pending_append map_filter_append)
qed

lemma initial_state_fields [simp]:
  "run_counter (initial_state fs) = 1" "run_notfound (initial_state fs) = []"
  "run_ledger (initial_state fs) = []" "queued (initial_state fs) = []"
  "outcomes (initial_state fs) = []" "assigned_filenames (initial_state fs) = []"
  "run_batches (initial_state fs) = []" "run_error (initial_state fs) = None"
  "run_files (initial_state fs) = fs"
  by (simp_all add: initial_state_def queued_def outcomes_def assigned_filenames_def)

lemma main_run:
  obtains batches where "chunks data 10 = Inr batches" "concat batches = data"
    "main w out downloaded data fs =
       main_loop w (os_path_join out ''panstamps'') (load_retrieved_ids downloaded)
         (initial_state fs) batches"
proof -
  define batches where
    "batches = map (\<lambda>i. slice data i (i + 10)) (range_from 0 (length data) 10)"
  have b: "chunks data 10 = Inr batches" "concat batches = data"
    using concat_slices [of 10 data 0] by (simp_all add: chunks_def batches_def)
  then have m: "main w out downloaded data fs =
       main_loop w (os_path_join out ''panstamps'') (load_retrieved_ids downloaded)
         (initial_state fs) batches"
    by (simp add: main_def)
  from b m show ?thesis by (rule that)
qed

section \<open>Runs of the program on the example inputs\<close>

text \<open>
  C1. The program is run twice on a table of one row with the id \<open>a\<close>, the second time
  with the ledger and the files that the first run has left. The first run downloads the
  item and appends the row \<open>images/panstamps/1.jpeg\<close> to the ledger. The second run
  recovers the id \<open>1\<close> from that row, which is the counter and not the id of the item, so
  it does not skip the row: it queues the same url and downloads the item again.
\<close>

theorem rerun_downloads_ledgered_item_again:
  "run_ledger (main (example_world serving_get 100) ''images'' None one_row Map.empty) =
     [[''images/panstamps/1.jpeg'']] \<and>
   load_retrieved_ids (ledger_column
     (run_ledger (main (example_world serving_get 100) ''images'' None one_row Map.empty))) =
     [''1''] \<and>
   queued (main (example_world serving_get 100) ''images''
     (ledger_column
       (run_ledger (main (example_world serving_get 100) ''images'' None one_row Map.empty)))
     one_row
     (run_files (main (example_world serving_get 100) ''images'' None one_row Map.empty))) =
     [(''http://skyservice.pha.jhu.edu/DR12/ImgCutout/getjpeg.aspx?ra=1&dec=1'',
       ''images/panstamps/1.jpeg'')] \<and>
   map result (outcomes (main (example_world serving_get 100) ''images''
     (ledger_column
       (run_ledger (main (example_world serving_get 100) ''images'' None one_row Map.empty)))
     one_row
     (run_files (main (example_world serving_get 100) ''images'' None one_row Map.empty)))) =
     [Inr (Some ''images/panstamps/1.jpeg'')]"
  by code_simp

text \<open>
  C4. A table of eleven rows makes two batches, of 10 and of 1. The body of the first item
  breaks off while it is written; the other nine items of the first batch are downloaded.
  The exception of the first worker ends \<open>multiobject_download\<close> and the run: nothing
  is appended to the ledger, not even for the nine items that were downloaded, and the
  second batch is never started.
\<close>

theorem broken_body_aborts_run:
  "map result (outcomes (main (example_world breaking_get 100) ''images'' None eleven_rows
     Map.empty)) =
     [Inl StreamError, Inr (Some ''images/panstamps/2.jpeg''),
      Inr (Some ''images/panstamps/3.jpeg''), Inr (Some ''images/panstamps/4.jpeg''),
      Inr (Some ''images/panstamps/5.jpeg''), Inr (Some ''images/panstamps/6.jpeg''),
      Inr (Some ''images/panstamps/7.jpeg''), Inr (Some ''images/panstamps/8.jpeg''),
      Inr (Some ''images/panstamps/9.jpeg''), Inr (Some ''images/panstamps/10.jpeg'')] \<and>
   run_error (main (example_world breaking_get 100) ''images'' None eleven_rows Map.empty) =
     Some StreamError \<and>
   run_ledger (main (example_world breaking_get 100) ''images'' None eleven_rows Map.empty) = [] \<and>
   length (run_batches (main (example_world breaking_get 100) ''images'' None eleven_rows
     Map.empty)) = 1 \<and>
   map (map length) [projr (chunks eleven_rows 10)] = [[10, 1]]"
  by code_simp

text \<open>
  C6, as stated, fails: eleven items, all downloaded at the first attempt, in two batches.
  When the first batch is complete, 10 of the 11 items of the run are downloaded, and the
  percentage printed last is 100, not 10 / 11 * 100.
\<close>

theorem running_percentage_counterexample:
  "reported_percents (main (example_world serving_get 100) ''images'' None eleven_rows Map.empty) =
     [[10, 20, 30, 40, 50, 60, 70, 80, 90, 100], [100]] \<and>
   downloaded_counts (main (example_world serving_get 100) ''images'' None eleven_rows Map.empty) =
     [10, 1] \<and>
   length eleven_rows = 11 \<and>
   (100 :: rat) \<noteq> of_nat 10 / of_nat 11 * 100"
proof -
  have "reported_percents (main (example_world serving_get 100) ''images'' None eleven_rows
      Map.empty) = [[10, 20, 30, 40, 50, 60, 70, 80, 90, 100], [100]]"
    by code_simp
  moreover have "downloaded_counts (main (example_world serving_get 100) ''images'' None
      eleven_rows Map.empty) = [10, 1]"
    by code_simp
  moreover have "length eleven_rows = 11" by (simp add: eleven_rows_def)
  moreover have "(100 :: rat) \<noteq> of_nat 10 / of_nat 11 * 100" by simp
  ultimately show ?thesis by (intro conjI)
qed

section \<open>Locator failures and filenames\<close>

lemma pair_entries_unused_name:
  "length urls \<le> length names \<Longrightarrow>
   pair_entries urls d (names @ [name]) = pair_entries urls d names"
  by (simp add: pair_entries_zip)

text \<open>
  C5. For a row that is not skipped and for which building the url raises, the loop body
  appends exactly one row to the failure log, leaves \<open>allUrls\<close> as it is, and the pairs
  that \<open>multiobject_download\<close> would form from \<open>allUrls\<close> and \<open>objids\<close> are the same
  as before the row. Over a batch, the failure log gains one row for each such row of the
  batch, and the urls of the entries handed to the executor are exactly the urls built for
  the other rows that are not skipped.
\<close>

theorem locator_failure_logged_not_queued:
  "(str w oid \<notin> set ids \<and> get_SDSS_url w RA DEC = None \<longrightarrow>
      notfound (row_step w ids rs (RA, DEC, oid)) =
        notfound rs @ [[str w RA @ '','' @ str w DEC @ '' not found'']] \<and>
      allUrls (row_step w ids rs (RA, DEC, oid)) = allUrls rs \<and>
      (length (allUrls rs) \<le> length (objids rs) \<longrightarrow>
         pair_entries (allUrls (row_step w ids rs (RA, DEC, oid))) d
           (objids (row_step w ids rs (RA, DEC, oid))) =
         pair_entries (allUrls rs) d (objids rs))) \<and>
   run_notfound (batch_step w d ids st batch) =
     run_notfound st @
     map (notfound_row w) (filter (\<lambda>row. row_url w row = None) (pending w ids batch)) \<and>
   map fst (queued (batch_step w d ids st batch)) =
     map fst (queued st) @ List.map_filter (row_url w) (pending w ids batch)"
proof (intro conjI impI)
  assume a: "str w oid \<notin> set ids \<and> get_SDSS_url w RA DEC = None"
  then have step: "row_step w ids rs (RA, DEC, oid) =
      rs\<lparr>objids := objids rs @ [jpeg_name (counter rs)], counter := counter rs + 1,
         notfound := notfound rs @ [notfound_row w (RA, DEC, oid)]\<rparr>"
    by (simp add: row_step_notfound row_url_def)
  show "notfound (row_step w ids rs (RA, DEC, oid)) =
        notfound rs @ [[str w RA @ '','' @ str w DEC @ '' not found'']]"
    by (simp add: step notfound_row_def)
  show "allUrls (row_step w ids rs (RA, DEC, oid)) = allUrls rs"
    by (simp add: step)
  assume "length (allUrls rs) \<le> length (objids rs)"
  then show "pair_entries (allUrls (row_step w ids rs (RA, DEC, oid))) d
           (objids (row_step w ids rs (RA, DEC, oid))) =
         pair_entries (allUrls rs) d (objids rs)"
    by (simp add: step pair_entries_unused_name)
next
  show "run_notfound (batch_step w d ids st batch) =
     run_notfound st @
     map (notfound_row w) (filter (\<lambda>row. row_url w row = None) (pending w ids batch))"
    by (rule batch_step_fields)
  show "map fst (queued (batch_step w d ids st batch)) =
     map fst (queued st) @ List.map_filter (row_url w) (pending w ids batch)"
    by (simp add: batch_step_queue(1) batch_queue(1))
qed

theorem locator_failure_logged_not_queued_witness:
  "str (example_world picky_get 100) ''b'' \<notin> set [''1''] \<and>
   get_SDSS_url (example_world picky_get 100) [] ''2'' = None \<and>
   notfound (row_step (example_world picky_get 100) [''1'']
     \<lparr>counter = 2, objids = [''1.jpeg''], allUrls = [''u''], notfound = []\<rparr>
     ([], ''2'', ''b'')) = [['',2 not found'']] \<and>
   allUrls (row_step (example_world picky_get 100) [''1'']
     \<lparr>counter = 2, objids = [''1.jpeg''], allUrls = [''u''], notfound = []\<rparr>
     ([], ''2'', ''b'')) = [''u'']"
proof -
  have h1: "str (example_world picky_get 100) ''b'' \<notin> set [''1'']"
    by (simp add: example_world_def)
  have h2: "get_SDSS_url (example_world picky_get 100) [] ''2'' = None"
    by (simp add: example_world_def get_SDSS_url_def)
  note t = locator_failure_logged_not_queued
    [of "example_world picky_get 100" "''b''" "[''1'']" "[]" "''2''"
      "\<lparr>counter = 2, objids = [''1.jpeg''], allUrls = [''u''], notfound = []\<rparr>"
      "''images/panstamps''" "initial_state Map.empty" four_rows]
  note c = t [THEN conjunct1, THEN mp, OF conjI [OF h1 h2]]
  from c [THEN conjunct1]
  have n: "notfound (row_step (example_world picky_get 100) [''1'']
     \<lparr>counter = 2, objids = [''1.jpeg''], allUrls = [''u''], notfound = []\<rparr>
     ([], ''2'', ''b'')) = [['',2 not found'']]"
    by (simp add: example_world_def)
  from c [THEN conjunct2, THEN conjunct1]
  have u: "allUrls (row_step (example_world picky_get 100) [''1'']
     \<lparr>counter = 2, objids = [''1.jpeg''], allUrls = [''u''], notfound = []\<rparr>
     ([], ''2'', ''b'')) = [''u'']"
    by simp
  from h1 h2 n u show ?thesis by (intro conjI)
qed

text \<open>
  C10. In every run, completed or ended by an exception, the filenames assigned are
  \<open>1.jpeg\<close>, \<open>2.jpeg\<close>, and so on up to the last value of the counter, in this order
  across all batches, so they are pairwise distinct; the destination path of every entry
  handed to the executor is one of these names joined to the download directory, and these
  paths are pairwise distinct. In a completed run the counter ends at one plus the number
  of rows that were not skipped.
\<close>

theorem filenames_are_sequential_and_distinct:
  "assigned_filenames (main w out downloaded data fs) =
     map jpeg_name [1 ..< run_counter (main w out downloaded data fs)] \<and>
   distinct (assigned_filenames (main w out downloaded data fs)) \<and>
   set (map snd (queued (main w out downloaded data fs))) \<subseteq>
     (\<lambda>n. os_path_join (os_path_join out ''panstamps'') (jpeg_name n)) `
       {1 ..< run_counter (main w out downloaded data fs)} \<and>
   distinct (map snd (queued (main w out downloaded data fs))) \<and>
   (run_error (main w out downloaded data fs) = None \<longrightarrow>
      run_counter (main w out downloaded data fs) =
        1 + length (filter (\<lambda>(RA, DEC, oid). str w oid \<notin> set (load_retrieved_ids downloaded))
              data))"
proof -
  obtain batches where b: "chunks data 10 = Inr batches" "concat batches = data"
    and m: "main w out downloaded data fs =
       main_loop w (os_path_join out ''panstamps'') (load_retrieved_ids downloaded)
         (initial_state fs) batches"
    by (rule main_run)
  from main_loop_filenames [of w "os_path_join out ''panstamps''" "load_retrieved_ids downloaded"
      "initial_state fs" batches]
  have a: "assigned_filenames (main w out downloaded data fs) =
     map jpeg_name [1 ..< run_counter (main w out downloaded data fs)]"
    unfolding m by simp
  have da: "distinct (assigned_filenames (main w out downloaded data fs))"
    unfolding a by (rule names_distinct)
  from main_loop_queue [of w "os_path_join out ''panstamps''" "load_retrieved_ids downloaded"
      "initial_state fs" batches]
  have s: "set (map snd (queued (main w out downloaded data fs))) \<subseteq>
     (\<lambda>n. os_path_join (os_path_join out ''panstamps'') (jpeg_name n)) `
       {1 ..< run_counter (main w out downloaded data fs)}"
    and d: "distinct (map snd (queued (main w out downloaded data fs)))"
    unfolding m by auto
  have c: "run_error (main w out downloaded data fs) = None \<longrightarrow>
      run_counter (main w out downloaded data fs) =
        1 + length (filter (\<lambda>(RA, DEC, oid). str w oid \<notin> set (load_retrieved_ids downloaded))
              data)"
  proof
    assume "run_error (main w out downloaded data fs) = None"
    then have "run_error (main_loop w (os_path_join out ''panstamps'')
        (load_retrieved_ids downloaded) (initial_state fs) batches) = None"
      by (simp only: m)
    from main_loop_complete [OF this] b(2)
    show "run_counter (main w out downloaded data fs) =
        1 + length (filter (\<lambda>(RA, DEC, oid). str w oid \<notin> set (load_retrieved_ids downloaded))
              data)"
      unfolding m by (simp add: pending_def)
  qed
  from a da s d c show ?thesis by (intro conjI)
qed

lemma four_rows_eval:
  "run_summary (main (example_world picky_get 100) ''images'' None four_rows Map.empty) =
     (5, [['',2 not found'']],
      [[''images/panstamps/1.jpeg''], [''images/panstamps/3.jpeg'']],
      [''1.jpeg'', ''2.jpeg'', ''3.jpeg'', ''4.jpeg''],
      [(''http://skyservice.pha.jhu.edu/DR12/ImgCutout/getjpeg.aspx?ra=1&dec=1'',
        ''images/panstamps/1.jpeg''),
       (''http://skyservice.pha.jhu.edu/DR12/ImgCutout/getjpeg.aspx?ra=3&dec=3'',
        ''images/panstamps/2.jpeg''),
       (''http://skyservice.pha.jhu.edu/DR12/ImgCutout/getjpeg.aspx?ra=4&dec=4'',
        ''images/panstamps/3.jpeg'')],
      [Inr (Some ''images/panstamps/1.jpeg''), Inr None,
       Inr (Some ''images/panstamps/3.jpeg'')],
      None, 1)"
  by code_simp

theorem filenames_are_sequential_and_distinct_witness:
  "run_error (main (example_world picky_get 100) ''images'' None four_rows Map.empty) = None \<and>
   run_counter (main (example_world picky_get 100) ''images'' None four_rows Map.empty) = 5 \<and>
   assigned_filenames (main (example_world picky_get 100) ''images'' None four_rows Map.empty) =
     [''1.jpeg'', ''2.jpeg'', ''3.jpeg'', ''4.jpeg''] \<and>
   map snd (queued (main (example_world picky_get 100) ''images'' None four_rows Map.empty)) =
     [''images/panstamps/1.jpeg'', ''images/panstamps/2.jpeg'', ''images/panstamps/3.jpeg''] \<and>
   distinct (assigned_filenames
     (main (example_world picky_get 100) ''images'' None four_rows Map.empty)) \<and>
   distinct (map snd (queued
     (main (example_world picky_get 100) ''images'' None four_rows Map.empty)))"
proof -
  note t = filenames_are_sequential_and_distinct
    [of "example_world picky_get 100" "''images''" None four_rows Map.empty]
  have e: "run_error (main (example_world picky_get 100) ''images'' None four_rows Map.empty) =
      None"
    "run_counter (main (example_world picky_get 100) ''images'' None four_rows Map.empty) = 5"
    "assigned_filenames (main (example_world picky_get 100) ''images'' None four_rows Map.empty) =
      [''1.jpeg'', ''2.jpeg'', ''3.jpeg'', ''4.jpeg'']"
    "map snd (queued (main (example_world picky_get 100) ''images'' None four_rows Map.empty)) =
      [''images/panstamps/1.jpeg'', ''images/panstamps/2.jpeg'', ''images/panstamps/3.jpeg'']"
    using four_rows_eval by (simp_all add: run_summary_def)
  from e t [THEN conjunct2, THEN conjunct1]
    t [THEN conjunct2, THEN conjunct2, THEN conjunct2, THEN conjunct1]
  show ?thesis by (intro conjI)
qed

lemma two_urls_eval:
  "map percent (reports (multiobject_download (example_world serving_get 100) Map.empty
      [''u1'', ''u2''] ''d'' [''1.jpeg'', ''2.jpeg''] 180 2)) = [50, 100] \<and>
   map got_path (fetched (multiobject_download (example_world serving_get 100) Map.empty
      [''u1'', ''u2''] ''d'' [''1.jpeg'', ''2.jpeg''] 180 2)) = [True, True]"
  by code_simp

theorem batch_progress_percentage_witness:
  "1 < length (reports (multiobject_download (example_world serving_get 100) Map.empty
      [''u1'', ''u2''] ''d'' [''1.jpeg'', ''2.jpeg''] 180 2)) \<and>
   got_path (fetched (multiobject_download (example_world serving_get 100) Map.empty
      [''u1'', ''u2''] ''d'' [''1.jpeg'', ''2.jpeg''] 180 2) ! 0) \<and>
   got_path (fetched (multiobject_download (example_world serving_get 100) Map.empty
      [''u1'', ''u2''] ''d'' [''1.jpeg'', ''2.jpeg''] 180 2) ! 1) \<and>
   percent (reports (multiobject_download (example_world serving_get 100) Map.empty
      [''u1'', ''u2''] ''d'' [''1.jpeg'', ''2.jpeg''] 180 2) ! 1) =
     of_nat 2 / of_nat 2 * 100"
proof -
  let ?dl = "multiobject_download (example_world serving_get 100) Map.empty
      [''u1'', ''u2''] ''d'' [''1.jpeg'', ''2.jpeg''] 180 2"
  from two_urls_eval have p: "map percent (reports ?dl) = [50, 100]"
    and g: "map got_path (fetched ?dl) = [True, True]" by simp_all
  from p obtain r0 r1 where "reports ?dl = [r0, r1]" by (auto simp: map_eq_Cons_conv)
  then have h1: "1 < length (reports ?dl)" by simp
  from g obtain o0 o1 where f: "fetched ?dl = [o0, o1]" and g0: "got_path o0" and g1: "got_path o1"
    by (auto simp: map_eq_Cons_conv)
  from f g0 g1 have h2: "\<forall>j \<le> 1. got_path (fetched ?dl ! j)"
    by (auto simp: le_Suc_eq)
  note t = batch_progress_percentage
    [of "example_world serving_get 100" Map.empty "[''u1'', ''u2'']" "''d''"
      "[''1.jpeg'', ''2.jpeg'']" 180 2, THEN spec, of 1, THEN mp, OF h1]
  from t [THEN conjunct2, THEN conjunct2, THEN mp, OF h2] f g0 g1
  have "percent (reports ?dl ! 1) = of_nat 2 / of_nat 2 * 100" by simp
  with h1 f g0 g1 show ?thesis by simp
qed

end
